theory Spec2Isabelle
  imports Complex_Main "HOL-Library.Product_Lexorder"
begin

section \<open>Strings and phonetic symbols\<close>

text \<open>
  A Python \<open>str\<close> is a sequence of Unicode code points; the phonetic symbols of the
  program lie outside ASCII, so a string is modelled as the list of its code points.
  \<open>asc\<close> turns an ASCII literal of the source into that representation.
\<close>

type_synonym pystr = "nat list"

definition asc :: "string \<Rightarrow> pystr" where
  "asc s = map of_char s"

abbreviation ch_slash :: nat where "ch_slash \<equiv> 47"
abbreviation ch_b :: nat where "ch_b \<equiv> 98"
abbreviation ch_d :: nat where "ch_d \<equiv> 100"
abbreviation ch_f :: nat where "ch_f \<equiv> 102"
abbreviation ch_g :: nat where "ch_g \<equiv> 103"
abbreviation ch_j :: nat where "ch_j \<equiv> 106"
abbreviation ch_k :: nat where "ch_k \<equiv> 107"
abbreviation ch_l :: nat where "ch_l \<equiv> 108"
abbreviation ch_n :: nat where "ch_n \<equiv> 110"
abbreviation ch_p :: nat where "ch_p \<equiv> 112"
abbreviation ch_r :: nat where "ch_r \<equiv> 114"
abbreviation ch_s :: nat where "ch_s \<equiv> 115"
abbreviation ch_t :: nat where "ch_t \<equiv> 116"
abbreviation ch_v :: nat where "ch_v \<equiv> 118"
abbreviation ch_w :: nat where "ch_w \<equiv> 119"
abbreviation ch_z :: nat where "ch_z \<equiv> 122"
abbreviation ch_ash :: nat where "ch_ash \<equiv> 230"      \<comment> \<open>U+00E6\<close>
abbreviation ch_eth :: nat where "ch_eth \<equiv> 240"      \<comment> \<open>U+00F0\<close>
abbreviation ch_eng :: nat where "ch_eng \<equiv> 331"      \<comment> \<open>U+014B\<close>
abbreviation ch_turned_r :: nat where "ch_turned_r \<equiv> 633"  \<comment> \<open>U+0279\<close>
abbreviation ch_esh :: nat where "ch_esh \<equiv> 643"      \<comment> \<open>U+0283\<close>
abbreviation ch_ezh :: nat where "ch_ezh \<equiv> 658"      \<comment> \<open>U+0292\<close>
abbreviation ch_theta :: nat where "ch_theta \<equiv> 952"  \<comment> \<open>U+03B8\<close>
abbreviation ch_arrow :: nat where "ch_arrow \<equiv> 8594"  \<comment> \<open>U+2192\<close>

section \<open>Configuration and reference data\<close>

datatype py_error = KeyError string

text \<open>
  \<open>load_sensitivity_config\<close> returns a dict with three float thresholds. The scorer only
  compares numbers, so a threshold is modelled by the real number its literal denotes.
  The keys are ASCII literals and are kept as HOL strings.
\<close>

type_synonym config = "string \<rightharpoonup> real"

definition load_sensitivity_config :: config where
  "load_sensitivity_config =
     [''high_confidence'' \<mapsto> 0.85,
      ''moderate_confidence'' \<mapsto> 0.65,
      ''low_confidence'' \<mapsto> 0.45]"

text \<open>
  The rule table is a data frame with six text columns; a row is a record of its cells
  and the table is the list of its rows, in file order.
\<close>

record rule_row =
  Condition :: pystr
  Typical_patterns :: pystr
  Rule_mapping_example :: pystr
  Clinical_notes :: pystr
  Age_of_concern :: pystr
  Confidence_notes :: pystr

type_synonym rule_table = "rule_row list"

text \<open>
  \<open>load_speech_rules\<close> reads \<open>speech_rule_mapping.csv\<close>; the argument is the outcome of
  that read: \<open>Some df\<close> is the parsed table, \<open>None\<close> stands for \<open>FileNotFoundError\<close>,
  which the function catches and answers with the embedded two-row table.
\<close>

definition fallback_rules :: rule_table where
  "fallback_rules =
     [\<lparr>Condition = asc ''Articulation Disorder'',
       Typical_patterns = asc ''Difficulty producing specific speech sounds'',
       Rule_mapping_example = [ch_r, ch_arrow, ch_w] @ asc '' substitution'',
       Clinical_notes = asc ''Motor-based errors'',
       Age_of_concern = asc ''Any age'',
       Confidence_notes = asc ''High for detection''\<rparr>,
      \<lparr>Condition = asc ''Phonological Disorder'',
       Typical_patterns = asc ''Patterned simplifications of sounds'',
       Rule_mapping_example = asc ''cluster reduction'',
       Clinical_notes = asc ''Language-based phonological knowledge difference'',
       Age_of_concern = asc ''Typically noticed in childhood'',
       Confidence_notes = asc ''High when multiple processes observed''\<rparr>]"

definition load_speech_rules :: "rule_table option \<Rightarrow> rule_table" where
  "load_speech_rules csv = (case csv of Some df \<Rightarrow> df | None \<Rightarrow> fallback_rules)"

section \<open>Pattern classifier\<close>

datatype tag = Replace | Delete | Insert | Equal

record diff =
  dtype :: tag
  expected :: pystr
  produced :: pystr
  position :: nat

record identified_pattern =
  condition :: pystr
  pattern :: pystr
  example :: pystr
  clinical_notes :: pystr
  age_concern :: pystr
  severity :: pystr
  confidence :: pystr

text \<open>\<open>speech_rules[speech_rules['Condition'] == name]\<close>: the rows with that condition.\<close>

definition select_rule :: "rule_table \<Rightarrow> pystr \<Rightarrow> rule_table" where
  "select_rule speech_rules name = filter (\<lambda>row. Condition row = name) speech_rules"

text \<open>The dict appended by every branch, filled from \<open>rule.iloc[0]\<close>.\<close>

definition make_pattern :: "pystr \<Rightarrow> pystr \<Rightarrow> pystr \<Rightarrow> rule_row \<Rightarrow> identified_pattern" where
  "make_pattern cond pat sev row =
     \<lparr>condition = cond, pattern = pat,
      example = Rule_mapping_example row,
      clinical_notes = Clinical_notes row,
      age_concern = Age_of_concern row,
      severity = sev,
      confidence = Confidence_notes row\<rparr>"

text \<open>
  \<open>if not rule.empty: identified_patterns.append({...})\<close>: the patterns one branch adds,
  given the condition it looks up, the condition it reports, the pattern text and the
  severity.
\<close>

definition emit :: "rule_table \<Rightarrow> pystr \<Rightarrow> pystr \<Rightarrow> pystr \<Rightarrow> pystr \<Rightarrow> identified_pattern list" where
  "emit speech_rules key cond pat sev =
     (case select_rule speech_rules key of
        [] \<Rightarrow> []
      | row # _ \<Rightarrow> [make_pattern cond pat sev row])"

text \<open>The six conditions of the \<open>if\<close>/\<open>elif\<close> chain, on the spans of a replace op.\<close>

definition is_gliding :: "pystr \<Rightarrow> pystr \<Rightarrow> bool" where
  "is_gliding e p \<longleftrightarrow>
     (e \<in> set [[ch_r], [ch_turned_r]] \<and> p = [ch_w]) \<or>
     (e = [ch_l] \<and> p \<in> set [[ch_w], [ch_j]])"

definition is_stopping :: "pystr \<Rightarrow> pystr \<Rightarrow> bool" where
  "is_stopping e p \<longleftrightarrow>
     e \<in> set [[ch_s], [ch_z], [ch_f], [ch_v], [ch_theta], [ch_eth], [ch_esh], [ch_ezh]] \<and>
     p \<in> set [[ch_t], [ch_d], [ch_p], [ch_b]]"

definition is_fronting :: "pystr \<Rightarrow> pystr \<Rightarrow> bool" where
  "is_fronting e p \<longleftrightarrow>
     e \<in> set [[ch_k], [ch_g], [ch_eng]] \<and> p \<in> set [[ch_t], [ch_d], [ch_n]]"

definition is_backing :: "pystr \<Rightarrow> pystr \<Rightarrow> bool" where
  "is_backing e p \<longleftrightarrow>
     e \<in> set [[ch_t], [ch_d], [ch_s]] \<and> p \<in> set [[ch_k], [ch_g]]"

definition is_labialization :: "pystr \<Rightarrow> pystr \<Rightarrow> bool" where
  "is_labialization e p \<longleftrightarrow>
     e \<in> set [[ch_s], [ch_z], [ch_t], [ch_d]] \<and> p \<in> set [[ch_f], [ch_v], [ch_p], [ch_b]]"

definition is_voicing :: "pystr \<Rightarrow> pystr \<Rightarrow> bool" where
  "is_voicing e p \<longleftrightarrow>
     (e \<in> set [[ch_p], [ch_t], [ch_k], [ch_f], [ch_s], [ch_theta], [ch_esh]] \<and>
      p \<in> set [[ch_b], [ch_d], [ch_g], [ch_v], [ch_z], [ch_eth], [ch_ezh]]) \<or>
     (e \<in> set [[ch_b], [ch_d], [ch_g], [ch_v], [ch_z], [ch_eth], [ch_ezh]] \<and>
      p \<in> set [[ch_p], [ch_t], [ch_k], [ch_f], [ch_s], [ch_theta], [ch_esh]])"

text \<open>The body of the first loop for a replace op with spans \<open>e\<close> and \<open>p\<close>.\<close>

definition classify_replace :: "rule_table \<Rightarrow> pystr \<Rightarrow> pystr \<Rightarrow> identified_pattern list" where
  "classify_replace speech_rules e p =
     (if is_gliding e p then
        emit speech_rules (asc ''Gliding'') (asc ''Gliding'')
          (e @ [ch_arrow] @ p) (asc ''Moderate'')
      else if is_stopping e p then
        emit speech_rules (asc ''Stopping'') (asc ''Stopping'')
          (e @ [ch_arrow] @ p @ asc '' (fricative to stop)'') (asc ''Moderate'')
      else if is_fronting e p then
        emit speech_rules (asc ''Fronting (Velar Fronting)'') (asc ''Fronting (Velar Fronting)'')
          (e @ [ch_arrow] @ p) (asc ''Moderate'')
      else if is_backing e p then
        emit speech_rules (asc ''Backing'') (asc ''Backing'')
          (e @ [ch_arrow] @ p) (asc ''Concerning'')
      else if is_labialization e p then
        emit speech_rules (asc ''Labialization'') (asc ''Labialization'')
          (e @ [ch_arrow] @ p) (asc ''Mild-Moderate'')
      else if is_voicing e p then
        emit speech_rules (asc ''Voicing (Devoicing/Voicing Errors)'') (asc ''Voicing Error'')
          (e @ [ch_arrow] @ p) (asc ''Mild'')
      else [])"

text \<open>The first loop: every difference in order, the accumulator is \<open>identified_patterns\<close>.\<close>

fun replace_loop :: "rule_table \<Rightarrow> diff list \<Rightarrow> identified_pattern list \<Rightarrow> identified_pattern list" where
  "replace_loop speech_rules [] identified = identified"
| "replace_loop speech_rules (d # ds) identified =
     replace_loop speech_rules ds
       (if dtype d = Replace
        then identified @ classify_replace speech_rules (expected d) (produced d)
        else identified)"

text \<open>The second loop; the \<open>break\<close> after the first append ends it.\<close>

fun delete_loop :: "rule_table \<Rightarrow> diff list \<Rightarrow> identified_pattern list \<Rightarrow> identified_pattern list" where
  "delete_loop speech_rules [] identified = identified"
| "delete_loop speech_rules (d # ds) identified =
     (if dtype d = Delete \<and> expected d \<noteq> [] then
        (case select_rule speech_rules (asc ''Final Consonant Deletion'') of
           [] \<Rightarrow> delete_loop speech_rules ds identified
         | row # _ \<Rightarrow>
             identified @
             [make_pattern (asc ''Final Consonant Deletion'')
                (asc ''Omission of /'' @ expected d @ asc ''/'') (asc ''Moderate'') row])
      else delete_loop speech_rules ds identified)"

definition identify_patterns :: "diff list \<Rightarrow> rule_table \<Rightarrow> identified_pattern list" where
  "identify_patterns differences speech_rules =
     delete_loop speech_rules differences (replace_loop speech_rules differences [])"

text \<open>What one difference adds to \<open>identified_patterns\<close> in the first loop.\<close>

definition replace_step :: "rule_table \<Rightarrow> diff \<Rightarrow> identified_pattern list" where
  "replace_step speech_rules d =
     (if dtype d = Replace then classify_replace speech_rules (expected d) (produced d) else [])"

text \<open>
  The six phonetic-class predicates in the order the specification lists them, each with
  the condition name its pattern carries, and the name belonging to the first predicate
  of that list that holds for a pair of spans.
\<close>

definition predicate_table :: "((pystr \<Rightarrow> pystr \<Rightarrow> bool) \<times> pystr) list" where
  "predicate_table =
     [(is_gliding, asc ''Gliding''), (is_stopping, asc ''Stopping''),
      (is_fronting, asc ''Fronting (Velar Fronting)''), (is_backing, asc ''Backing''),
      (is_labialization, asc ''Labialization''), (is_voicing, asc ''Voicing Error'')]"

definition first_match :: "pystr \<Rightarrow> pystr \<Rightarrow> pystr option" where
  "first_match e p = map_option snd (find (\<lambda>(P, name). P e p) predicate_table)"

text \<open>A rule-table row with the given condition and empty display fields.\<close>

definition row_named :: "pystr \<Rightarrow> rule_row" where
  "row_named name =
     \<lparr>Condition = name, Typical_patterns = [], Rule_mapping_example = [],
      Clinical_notes = [], Age_of_concern = [], Confidence_notes = []\<rparr>"

section \<open>Confidence scorer\<close>

text \<open>
  \<open>config[key]\<close> raises \<open>KeyError\<close> on a missing key; the lookups happen in the order of
  the chain, each only when the comparison before it failed.
\<close>

definition calculate_confidence_level :: "real \<Rightarrow> config \<Rightarrow> py_error + (string \<times> string)" where
  "calculate_confidence_level similarity_score cfg =
     (case cfg ''high_confidence'' of
        None \<Rightarrow> Inl (KeyError ''high_confidence'')
      | Some high \<Rightarrow>
          if similarity_score \<ge> high then Inr (''High Confidence'', ''success'')
          else
            (case cfg ''moderate_confidence'' of
               None \<Rightarrow> Inl (KeyError ''moderate_confidence'')
             | Some moderate \<Rightarrow>
                 if similarity_score \<ge> moderate then Inr (''Moderate Confidence'', ''warning'')
                 else
                   (case cfg ''low_confidence'' of
                      None \<Rightarrow> Inl (KeyError ''low_confidence'')
                    | Some low \<Rightarrow>
                        if similarity_score \<ge> low then Inr (''Low Confidence'', ''error'')
                        else Inr (''Very Low Confidence'', ''error''))))"

section \<open>Alignment engine\<close>

text \<open>\<open>s.strip('/')\<close>: every leading and every trailing slash is removed.\<close>

definition strip_slash :: "pystr \<Rightarrow> pystr" where
  "strip_slash s =
     rev (dropWhile (\<lambda>c. c = ch_slash) (rev (dropWhile (\<lambda>c. c = ch_slash) s)))"

text \<open>\<open>s[lo:hi]\<close> for \<open>0 \<le> lo\<close> and \<open>0 \<le> hi\<close>.\<close>

definition slice :: "pystr \<Rightarrow> nat \<Rightarrow> nat \<Rightarrow> pystr" where
  "slice s lo hi = take (hi - lo) (drop lo s)"

text \<open>
  The comparison is \<open>difflib.SequenceMatcher(None, expected, produced)\<close> of the Python
  standard library: \<open>a\<close> is the expected string, \<open>b\<close> the produced one, \<open>isjunk\<close> is
  \<open>None\<close> and \<open>autojunk\<close> keeps its default \<open>True\<close>. A match is the triple
  \<open>(i, j, k)\<close> with \<open>a[i:i+k] == b[j:j+k]\<close>.

  \<open>__chain_b\<close> builds \<open>b2j\<close>, the dict from each element of \<open>b\<close> to the ascending list
  of its positions; with no \<open>isjunk\<close> the junk set stays empty, and when \<open>b\<close> has at
  least 200 elements the elements occurring more than \<open>n // 100 + 1\<close> times are deleted
  from \<open>b2j\<close> as popular.
\<close>

type_synonym match = "nat \<times> nat \<times> nat"

definition chain_b :: "pystr \<Rightarrow> (nat \<rightharpoonup> nat list)" where
  "chain_b b =
     (let b2j = fold (\<lambda>(i, elt) m. m(elt \<mapsto> (case m elt of None \<Rightarrow> [] | Some indices \<Rightarrow> indices) @ [i]))
                  (enumerate 0 b) Map.empty;
          n = length b
      in if n \<ge> 200 then
           (let ntest = n div 100 + 1
            in (\<lambda>elt. case b2j elt of
                         None \<Rightarrow> None
                       | Some idxs \<Rightarrow> if length idxs > ntest then None else Some idxs))
         else b2j)"

text \<open>
  \<open>find_longest_match\<close>. The inner loop runs over \<open>b2j.get(a[i], [])\<close>: \<open>continue\<close>
  below \<open>blo\<close>, \<open>break\<close> from \<open>bhi\<close> on, otherwise
  \<open>k = newj2len[j] = j2len.get(j-1, 0) + 1\<close> and the best match is replaced when \<open>k\<close>
  is larger. For \<open>j = 0\<close> the key \<open>-1\<close> is never in the dict, so the default 0 is
  written out. The state is \<open>(newj2len, besti, bestj, bestsize)\<close>.
\<close>

fun inner_loop :: "nat \<Rightarrow> nat \<Rightarrow> nat \<Rightarrow> (nat \<rightharpoonup> nat) \<Rightarrow> nat list \<Rightarrow>
    (nat \<rightharpoonup> nat) \<times> match \<Rightarrow> (nat \<rightharpoonup> nat) \<times> match" where
  "inner_loop i blo bhi j2len [] st = st"
| "inner_loop i blo bhi j2len (j # js) (newj2len, besti, bestj, bestsize) =
     (if j < blo then inner_loop i blo bhi j2len js (newj2len, besti, bestj, bestsize)
      else if j \<ge> bhi then (newj2len, besti, bestj, bestsize)
      else
        (let k = (if j = 0 then 0 else (case j2len (j - 1) of None \<Rightarrow> 0 | Some v \<Rightarrow> v)) + 1
         in if k > bestsize
            then inner_loop i blo bhi j2len js (newj2len(j \<mapsto> k), i + 1 - k, j + 1 - k, k)
            else inner_loop i blo bhi j2len js (newj2len(j \<mapsto> k), besti, bestj, bestsize)))"

text \<open>\<open>for i in range(alo, ahi)\<close>, carrying \<open>j2len\<close> and the best match.\<close>

function outer_loop :: "pystr \<Rightarrow> (nat \<rightharpoonup> nat list) \<Rightarrow> nat \<Rightarrow> nat \<Rightarrow> nat \<Rightarrow> nat \<Rightarrow>
    (nat \<rightharpoonup> nat) \<times> match \<Rightarrow> match" where
  "outer_loop a b2j blo bhi i ahi (j2len, best) =
     (if i < ahi then
        (case inner_loop i blo bhi j2len (case b2j (a ! i) of None \<Rightarrow> [] | Some js \<Rightarrow> js)
                (Map.empty, best) of
           (newj2len, best') \<Rightarrow> outer_loop a b2j blo bhi (i + 1) ahi (newj2len, best'))
      else best)"
  by pat_completeness auto
termination
  by (relation "measure (\<lambda>(a, b2j, blo, bhi, i, ahi, st). ahi - i)") auto

declare outer_loop.simps [simp del]

text \<open>
  The two \<open>while\<close> loops that extend the best match by equal elements on each end. The
  junk set is empty, so \<open>not isbjunk(...)\<close> holds in them and the two further loops,
  which extend by junk elements only, never run.
\<close>

function extend_left :: "pystr \<Rightarrow> pystr \<Rightarrow> nat \<Rightarrow> nat \<Rightarrow> match \<Rightarrow> match" where
  "extend_left a b alo blo (besti, bestj, bestsize) =
     (if besti > alo \<and> bestj > blo \<and> a ! (besti - 1) = b ! (bestj - 1)
      then extend_left a b alo blo (besti - 1, bestj - 1, bestsize + 1)
      else (besti, bestj, bestsize))"
  by pat_completeness auto
termination
  by (relation "measure (\<lambda>(a, b, alo, blo, besti, bestj, bestsize). besti)") auto

declare extend_left.simps [simp del]

function extend_right :: "pystr \<Rightarrow> pystr \<Rightarrow> nat \<Rightarrow> nat \<Rightarrow> match \<Rightarrow> match" where
  "extend_right a b ahi bhi (besti, bestj, bestsize) =
     (if besti + bestsize < ahi \<and> bestj + bestsize < bhi
         \<and> a ! (besti + bestsize) = b ! (bestj + bestsize)
      then extend_right a b ahi bhi (besti, bestj, bestsize + 1)
      else (besti, bestj, bestsize))"
  by pat_completeness auto
termination
  by (relation "measure (\<lambda>(a, b, ahi, bhi, besti, bestj, bestsize). ahi - (besti + bestsize))") auto

declare extend_right.simps [simp del]

definition find_longest_match ::
    "pystr \<Rightarrow> pystr \<Rightarrow> (nat \<rightharpoonup> nat list) \<Rightarrow> nat \<Rightarrow> nat \<Rightarrow> nat \<Rightarrow> nat \<Rightarrow> match" where
  "find_longest_match a b b2j alo ahi blo bhi =
     extend_right a b ahi bhi
       (extend_left a b alo blo
          (outer_loop a b2j blo bhi alo ahi (Map.empty, (alo, blo, 0))))"

text \<open>
  A match of positive size returned by \<open>find_longest_match\<close> lies inside the window it
  was asked for; the loop of \<open>get_matching_blocks\<close> terminates because of that.
\<close>

definition j2len_ok :: "nat \<Rightarrow> nat \<Rightarrow> nat \<Rightarrow> (nat \<rightharpoonup> nat) \<Rightarrow> bool" where
  "j2len_ok alo blo i m = (\<forall>j v. m j = Some v \<longrightarrow> blo \<le> j \<and> v \<le> i - alo \<and> v \<le> j + 1 - blo)"

definition best_ok :: "nat \<Rightarrow> nat \<Rightarrow> nat \<Rightarrow> nat \<Rightarrow> match \<Rightarrow> bool" where
  "best_ok alo ahi blo bhi best =
     (case best of (bi, bj, bs) \<Rightarrow>
        alo \<le> bi \<and> blo \<le> bj
        \<and> ((bs = 0 \<and> bi = alo \<and> bj = blo) \<or> (bi + bs \<le> ahi \<and> bj + bs \<le> bhi)))"

lemma inner_loop_ok:
  assumes "j2len_ok alo blo i j2len" "alo \<le> i" "i < ahi"
  shows "j2len_ok alo blo (i + 1) newj2len \<Longrightarrow> best_ok alo ahi blo bhi best \<Longrightarrow>
         inner_loop i blo bhi j2len js (newj2len, best) = (m', best') \<Longrightarrow>
         j2len_ok alo blo (i + 1) m' \<and> best_ok alo ahi blo bhi best'"
proof (induction js arbitrary: newj2len best)
  case Nil
  then show ?case by simp
next
  case (Cons j js)
  obtain bi bj bs where best: "best = (bi, bj, bs)" by (cases best) auto
  define k where "k = (if j = 0 then 0 else (case j2len (j - 1) of None \<Rightarrow> 0 | Some v \<Rightarrow> v)) + 1"
  show ?case
  proof (cases "j < blo")
    case True
    with Cons show ?thesis by (simp add: best)
  next
    case lo: False
    show ?thesis
    proof (cases "j \<ge> bhi")
      case True
      with Cons lo show ?thesis by (simp add: best)
    next
      case hi: False
      have k1: "k \<le> i + 1 - alo" and k2: "k \<le> j + 1 - blo" and k0: "0 < k"
        using assms(1,2) lo unfolding k_def j2len_ok_def
        by (auto split: option.splits) (force+)
      have J': "j2len_ok alo blo (i + 1) (newj2len(j \<mapsto> k))"
        using Cons.prems(1) k1 k2 lo unfolding j2len_ok_def by auto
      show ?thesis
      proof (cases "k > bs")
        case True
        have B': "best_ok alo ahi blo bhi (i + 1 - k, j + 1 - k, k)"
          using k1 k2 k0 assms(2,3) lo hi unfolding best_ok_def by auto
        from Cons.prems(3) have "inner_loop i blo bhi j2len js (newj2len(j \<mapsto> k), i + 1 - k, j + 1 - k, k) = (m', best')"
          using lo hi True by (simp add: best k_def Let_def)
        from Cons.IH [OF J' B' this] show ?thesis .
      next
        case False
        from Cons.prems(3) have "inner_loop i blo bhi j2len js (newj2len(j \<mapsto> k), best) = (m', best')"
          using lo hi False by (simp add: best k_def Let_def)
        from Cons.IH [OF J' Cons.prems(2) this] show ?thesis .
      qed
    qed
  qed
qed

lemma outer_loop_ok:
  "j2len_ok alo blo i j2len \<Longrightarrow> alo \<le> i \<Longrightarrow> best_ok alo ahi blo bhi best \<Longrightarrow>
   best_ok alo ahi blo bhi (outer_loop a b2j blo bhi i ahi (j2len, best))"
proof (induction a b2j blo bhi i ahi "(j2len, best)" arbitrary: j2len best rule: outer_loop.induct)
  case (1 a b2j blo bhi i ahi j2len best)
  show ?case
  proof (cases "i < ahi")
    case False
    have "outer_loop a b2j blo bhi i ahi (j2len, best) = best"
      by (subst outer_loop.simps) (use False in simp)
    with "1.prems" show ?thesis by simp
  next
    case True
    obtain m' best' where r: "inner_loop i blo bhi j2len (case b2j (a ! i) of None \<Rightarrow> [] | Some js \<Rightarrow> js)
                (Map.empty, best) = (m', best')"
      by (cases "inner_loop i blo bhi j2len (case b2j (a ! i) of None \<Rightarrow> [] | Some js \<Rightarrow> js)
                (Map.empty, best)") auto
    have e: "j2len_ok alo blo (i + 1) Map.empty" by (simp add: j2len_ok_def)
    from inner_loop_ok [OF "1.prems"(1,2) True e "1.prems"(3) r]
    have ok: "j2len_ok alo blo (i + 1) m'" "best_ok alo ahi blo bhi best'" by auto
    have "best_ok alo ahi blo bhi (outer_loop a b2j blo bhi (i + 1) ahi (m', best'))"
      using "1.hyps" [OF True r [symmetric] ok(1) _ ok(2)] "1.prems"(2) by simp
    moreover have "outer_loop a b2j blo bhi i ahi (j2len, best)
        = outer_loop a b2j blo bhi (i + 1) ahi (m', best')"
      by (subst outer_loop.simps) (use True r in simp)
    ultimately show ?thesis by simp
  qed
qed

lemma extend_left_ok:
  "best_ok alo ahi blo bhi best \<Longrightarrow> best_ok alo ahi blo bhi (extend_left a b alo blo best)"
proof (induction a b alo blo best rule: extend_left.induct)
  case (1 a b alo blo besti bestj bestsize)
  show ?case
  proof (cases "besti > alo \<and> bestj > blo \<and> a ! (besti - 1) = b ! (bestj - 1)")
    case True
    have "best_ok alo ahi blo bhi (besti - 1, bestj - 1, bestsize + 1)"
      using "1.prems" True unfolding best_ok_def by auto
    from "1.IH" [OF True this] have "best_ok alo ahi blo bhi
        (extend_left a b alo blo (besti - 1, bestj - 1, bestsize + 1))" .
    moreover have "extend_left a b alo blo (besti, bestj, bestsize)
        = extend_left a b alo blo (besti - 1, bestj - 1, bestsize + 1)"
      by (subst extend_left.simps) (use True in simp)
    ultimately show ?thesis by simp
  next
    case False
    have "extend_left a b alo blo (besti, bestj, bestsize) = (besti, bestj, bestsize)"
      by (subst extend_left.simps) (use False in auto)
    with "1.prems" show ?thesis by simp
  qed
qed

lemma extend_right_ok:
  "best_ok alo ahi blo bhi best \<Longrightarrow> best_ok alo ahi blo bhi (extend_right a b ahi bhi best)"
proof (induction a b ahi bhi best rule: extend_right.induct)
  case (1 a b ahi bhi besti bestj bestsize)
  show ?case
  proof (cases "besti + bestsize < ahi \<and> bestj + bestsize < bhi
         \<and> a ! (besti + bestsize) = b ! (bestj + bestsize)")
    case True
    have "best_ok alo ahi blo bhi (besti, bestj, bestsize + 1)"
      using "1.prems" True unfolding best_ok_def by auto
    from "1.IH" [OF True this] have "best_ok alo ahi blo bhi
        (extend_right a b ahi bhi (besti, bestj, bestsize + 1))" .
    moreover have "extend_right a b ahi bhi (besti, bestj, bestsize)
        = extend_right a b ahi bhi (besti, bestj, bestsize + 1)"
      by (subst extend_right.simps) (use True in simp)
    ultimately show ?thesis by simp
  next
    case False
    have "extend_right a b ahi bhi (besti, bestj, bestsize) = (besti, bestj, bestsize)"
      by (subst extend_right.simps) (use False in auto)
    with "1.prems" show ?thesis by simp
  qed
qed

lemma find_longest_match_ok:
  "best_ok alo ahi blo bhi (find_longest_match a b b2j alo ahi blo bhi)"
  unfolding find_longest_match_def
  by (intro extend_right_ok extend_left_ok outer_loop_ok)
     (simp_all add: j2len_ok_def best_ok_def)

lemma find_longest_match_bounds:
  "find_longest_match a b b2j alo ahi blo bhi = (i, j, k) \<Longrightarrow> k \<noteq> 0 \<Longrightarrow>
   alo \<le> i \<and> i + k \<le> ahi \<and> blo \<le> j \<and> j + k \<le> bhi"
  using find_longest_match_ok [of alo ahi blo bhi a b b2j]
  by (simp add: best_ok_def)

text \<open>
  The \<open>while queue\<close> loop of \<open>get_matching_blocks\<close>. \<open>queue.pop()\<close> takes the last
  element of the Python list; the head of the model's list is that last element, so the
  window right of the match, appended last, is put in front.
\<close>

function blocks_loop :: "pystr \<Rightarrow> pystr \<Rightarrow> (nat \<rightharpoonup> nat list) \<Rightarrow> (nat \<times> nat \<times> nat \<times> nat) list \<Rightarrow>
    match list \<Rightarrow> match list" where
  "blocks_loop a b b2j [] matching_blocks = matching_blocks"
| "blocks_loop a b b2j ((alo, ahi, blo, bhi) # queue) matching_blocks =
     (case find_longest_match a b b2j alo ahi blo bhi of
        (i, j, k) \<Rightarrow>
          if k \<noteq> 0 then
            blocks_loop a b b2j
              ((if i + k < ahi \<and> j + k < bhi then [(i + k, ahi, j + k, bhi)] else [])
               @ (if alo < i \<and> blo < j then [(alo, i, blo, j)] else [])
               @ queue)
              (matching_blocks @ [(i, j, k)])
          else blocks_loop a b b2j queue matching_blocks)"
  by pat_completeness auto
termination
  apply (relation "measure (\<lambda>(a, b, b2j, queue, mbs).
          sum_list (map (\<lambda>(alo, ahi, blo, bhi). (ahi - alo) + (bhi - blo) + 1) queue))")
    apply simp
  subgoal for a b b2j alo ahi blo bhi queue matching_blocks x y xa ya
    using find_longest_match_bounds [of a b b2j alo ahi blo bhi x xa ya] by auto
  subgoal by simp
  done

declare blocks_loop.simps [simp del]

text \<open>
  After \<open>matching_blocks.sort()\<close> adjacent blocks are merged; the state is
  \<open>(i1, j1, k1)\<close> and \<open>non_adjacent\<close>, and the first equation holds the append after the
  loop. The sentinel \<open>(la, lb, 0)\<close> ends the list.
\<close>

fun collapse :: "match list \<Rightarrow> match \<Rightarrow> match list \<Rightarrow> match list" where
  "collapse [] (i1, j1, k1) non_adjacent =
     (if k1 \<noteq> 0 then non_adjacent @ [(i1, j1, k1)] else non_adjacent)"
| "collapse ((i2, j2, k2) # rest) (i1, j1, k1) non_adjacent =
     (if i1 + k1 = i2 \<and> j1 + k1 = j2
      then collapse rest (i1, j1, k1 + k2) non_adjacent
      else collapse rest (i2, j2, k2)
             (if k1 \<noteq> 0 then non_adjacent @ [(i1, j1, k1)] else non_adjacent))"

definition get_matching_blocks :: "pystr \<Rightarrow> pystr \<Rightarrow> match list" where
  "get_matching_blocks a b =
     (let la = length a; lb = length b;
          matching_blocks = blocks_loop a b (chain_b b) [(0, la, 0, lb)] []
      in collapse (sort matching_blocks) (0, 0, 0) [] @ [(la, lb, 0)])"

text \<open>\<open>get_opcodes\<close>: the tag and the two ranges \<open>(tag, i1, i2, j1, j2)\<close>.\<close>

type_synonym opcode = "tag \<times> nat \<times> nat \<times> nat \<times> nat"

fun opcodes_loop :: "match list \<Rightarrow> nat \<Rightarrow> nat \<Rightarrow> opcode list \<Rightarrow> opcode list" where
  "opcodes_loop [] i j answer = answer"
| "opcodes_loop ((ai, bj, sz) # rest) i j answer =
     (let answer1 =
            (if i < ai \<and> j < bj then answer @ [(Replace, i, ai, j, bj)]
             else if i < ai then answer @ [(Delete, i, ai, j, bj)]
             else if j < bj then answer @ [(Insert, i, ai, j, bj)]
             else answer);
          i' = ai + sz;
          j' = bj + sz
      in opcodes_loop rest i' j'
           (if sz \<noteq> 0 then answer1 @ [(Equal, ai, i', bj, j')] else answer1))"

definition get_opcodes :: "pystr \<Rightarrow> pystr \<Rightarrow> opcode list" where
  "get_opcodes a b = opcodes_loop (get_matching_blocks a b) 0 0 []"

text \<open>
  \<open>ratio\<close> is \<open>2.0 * matches / length\<close>, or \<open>1.0\<close> when both sequences are empty; the
  float is modelled by the real number the quotient denotes.
\<close>

definition calculate_ratio :: "nat \<Rightarrow> nat \<Rightarrow> real" where
  "calculate_ratio matches len = (if len \<noteq> 0 then 2 * real matches / real len else 1)"

definition ratio :: "pystr \<Rightarrow> pystr \<Rightarrow> real" where
  "ratio a b =
     calculate_ratio (sum_list (map (\<lambda>(i, j, k). k) (get_matching_blocks a b)))
       (length a + length b)"

text \<open>
  \<open>compare_ipa_transcriptions(produced_ipa, expected_ipa)\<close>: the opcodes other than
  \<open>equal\<close> become difference records, and the similarity is the ratio.
\<close>

fun differences_loop :: "pystr \<Rightarrow> pystr \<Rightarrow> opcode list \<Rightarrow> diff list \<Rightarrow> diff list" where
  "differences_loop expected_s produced_s [] differences = differences"
| "differences_loop expected_s produced_s ((t, i1, i2, j1, j2) # rest) differences =
     differences_loop expected_s produced_s rest
       (if t \<noteq> Equal
        then differences @
             [\<lparr>dtype = t, expected = slice expected_s i1 i2,
               produced = slice produced_s j1 j2, position = i1\<rparr>]
        else differences)"

definition compare_ipa_transcriptions :: "pystr \<Rightarrow> pystr \<Rightarrow> diff list \<times> real" where
  "compare_ipa_transcriptions produced_ipa expected_ipa =
     (let produced_s = strip_slash produced_ipa;
          expected_s = strip_slash expected_ipa;
          differences = differences_loop expected_s produced_s (get_opcodes expected_s produced_s) [];
          similarity = ratio expected_s produced_s
      in (differences, similarity))"

section \<open>Confidence tiers\<close>

lemma default_thresholds:
  "load_sensitivity_config ''high_confidence'' = Some 0.85"
  "load_sensitivity_config ''moderate_confidence'' = Some 0.65"
  "load_sensitivity_config ''low_confidence'' = Some 0.45"
  by (simp_all add: load_sensitivity_config_def)

lemma score_with_defaults:
  "calculate_confidence_level s load_sensitivity_config =
     Inr (if 0.85 \<le> s then (''High Confidence'', ''success'')
          else if 0.65 \<le> s then (''Moderate Confidence'', ''warning'')
          else if 0.45 \<le> s then (''Low Confidence'', ''error'')
          else (''Very Low Confidence'', ''error''))"
  by (simp add: calculate_confidence_level_def default_thresholds)

text \<open>
  C1. With the default thresholds the scorer returns (High Confidence, success) exactly
  when the score is at least 0.85, otherwise (Moderate Confidence, warning) exactly when
  it is at least 0.65, otherwise (Low Confidence, error) exactly when it is at least
  0.45, otherwise (Very Low Confidence, error); 0.85 itself is High and 0.849999 is
  Moderate.
\<close>

theorem confidence_tiers_default:
  "(calculate_confidence_level s load_sensitivity_config
      = Inr (''High Confidence'', ''success'')) = (0.85 \<le> s)
   \<and> (calculate_confidence_level s load_sensitivity_config
      = Inr (''Moderate Confidence'', ''warning'')) = (0.65 \<le> s \<and> s < 0.85)
   \<and> (calculate_confidence_level s load_sensitivity_config
      = Inr (''Low Confidence'', ''error'')) = (0.45 \<le> s \<and> s < 0.65)
   \<and> (calculate_confidence_level s load_sensitivity_config
      = Inr (''Very Low Confidence'', ''error'')) = (s < 0.45)
   \<and> calculate_confidence_level 0.85 load_sensitivity_config
      = Inr (''High Confidence'', ''success'')
   \<and> calculate_confidence_level 0.849999 load_sensitivity_config
      = Inr (''Moderate Confidence'', ''warning'')"
  unfolding score_with_defaults by auto

text \<open>
  C7, as stated, fails: the scorer has no default of its own. With a configuration that
  holds no thresholds the lookup of \<open>high_confidence\<close> raises \<open>KeyError\<close>, where the
  defaults would have given High Confidence.
\<close>

theorem missing_config_raises:
  "calculate_confidence_level 0.9 Map.empty = Inl (KeyError ''high_confidence'')
   \<and> calculate_confidence_level 0.9 load_sensitivity_config
       = Inr (''High Confidence'', ''success'')"
  by (simp add: calculate_confidence_level_def default_thresholds)

text \<open>
  C7, amended. The configuration is never absent in the program:
  \<open>load_sensitivity_config\<close> takes no input and always returns the thresholds
  0.85, 0.65 and 0.45, and with it scoring succeeds for every score. The scorer itself
  does not fall back: a configuration without the key \<open>high_confidence\<close> makes the call
  raise \<open>KeyError\<close>.
\<close>

theorem config_always_supplied:
  "load_sensitivity_config ''high_confidence'' = Some 0.85
   \<and> load_sensitivity_config ''moderate_confidence'' = Some 0.65
   \<and> load_sensitivity_config ''low_confidence'' = Some 0.45
   \<and> (\<exists>r. calculate_confidence_level s load_sensitivity_config = Inr r)
   \<and> calculate_confidence_level s (cfg(''high_confidence'' := None))
       = Inl (KeyError ''high_confidence'')"
  by (simp add: default_thresholds score_with_defaults)
    (simp add: calculate_confidence_level_def)

section \<open>Properties of the pattern classifier\<close>

lemma emit_length: "length (emit rules key cond pat sev) \<le> Suc 0"
  by (simp add: emit_def split: list.split)

lemma emit_condition: "q \<in> set (emit rules key cond pat sev) \<Longrightarrow> condition q = cond"
  by (auto simp: emit_def make_pattern_def split: list.splits)

lemma emit_nonempty: "(emit rules key cond pat sev \<noteq> []) = (\<exists>row \<in> set rules. Condition row = key)"
proof -
  have "(emit rules key cond pat sev \<noteq> []) = (select_rule rules key \<noteq> [])"
    by (simp add: emit_def split: list.split)
  also have "\<dots> = (\<exists>row \<in> set rules. Condition row = key)"
    by (simp add: select_rule_def filter_empty_conv)
  finally show ?thesis .
qed

lemma classify_replace_length: "length (classify_replace rules e p) \<le> 1"
  by (simp add: classify_replace_def emit_length)

lemma classify_replace_first_match:
  "q \<in> set (classify_replace rules e p) \<Longrightarrow> first_match e p = Some (condition q)"
  by (auto simp: classify_replace_def first_match_def predicate_table_def
      dest: emit_condition split: if_splits)

lemma replace_loop_concat:
  "replace_loop rules ds acc = acc @ concat (map (replace_step rules) ds)"
  by (induction ds arbitrary: acc) (simp_all add: replace_step_def)

lemma delete_loop_append:
  "delete_loop rules ds acc = acc @ delete_loop rules ds []"
  by (induction ds) (simp_all split: list.split)

lemma delete_loop_find:
  "delete_loop rules ds [] =
     (case find (\<lambda>d. dtype d = Delete \<and> expected d \<noteq> []) ds of
        None \<Rightarrow> []
      | Some d \<Rightarrow> emit rules (asc ''Final Consonant Deletion'') (asc ''Final Consonant Deletion'')
            (asc ''Omission of /'' @ expected d @ asc ''/'') (asc ''Moderate''))"
  by (induction ds) (simp_all add: emit_def split: list.split option.split)

lemma classify_replace_not_deletion:
  "q \<in> set (classify_replace rules e p) \<Longrightarrow> condition q \<noteq> asc ''Final Consonant Deletion''"
  by (auto simp: classify_replace_def asc_def dest!: emit_condition split: if_splits)

lemma replace_step_length: "length (replace_step rules d) \<le> Suc 0"
  using classify_replace_length [of rules "expected d" "produced d"]
  by (simp add: replace_step_def)

lemma concat_short_length:
  "(\<And>x. length (f x) \<le> Suc 0) \<Longrightarrow> (\<And>x. \<not> P x \<Longrightarrow> f x = []) \<Longrightarrow>
   length (concat (map f xs)) \<le> length (filter P xs)"
proof (induction xs)
  case Nil
  then show ?case by simp
next
  case (Cons x xs)
  have "length (f x) \<le> (if P x then 1 else 0)"
    using Cons.prems(1) [of x] Cons.prems(2) [of x] by (cases "P x") simp_all
  moreover have "length (concat (map f xs)) \<le> length (filter P xs)"
    using Cons by blast
  ultimately show ?case by (cases "P x") simp_all
qed

lemma identify_patterns_split:
  "identify_patterns ds rules = concat (map (replace_step rules) ds) @ delete_loop rules ds []"
  unfolding identify_patterns_def
  by (subst delete_loop_append) (simp add: replace_loop_concat)

text \<open>
  C2. The first loop adds, for each op in turn, the patterns of that op alone; one op
  adds at most one pattern, and a pattern it adds carries the condition name of the
  first of the six predicates (Gliding, Stopping, Fronting, Backing, Labialization,
  Voicing Error, in this order) that holds for its spans. So the replace ops of a list
  yield at most as many patterns as there are replace ops, and a single replace op
  never yields two.
\<close>

theorem replace_op_single_pattern:
  "replace_loop rules ds [] = concat (map (replace_step rules) ds)
   \<and> length (replace_step rules d) \<le> 1
   \<and> (\<forall>q \<in> set (replace_step rules d).
         first_match (expected d) (produced d) = Some (condition q))
   \<and> length (replace_loop rules ds []) \<le> length (filter (\<lambda>d. dtype d = Replace) ds)
   \<and> (dtype d = Replace \<longrightarrow>
         identify_patterns [d] rules = replace_step rules d
         \<and> length (identify_patterns [d] rules) \<le> 1)"
proof -
  have a: "replace_loop rules ds [] = concat (map (replace_step rules) ds)"
    by (simp add: replace_loop_concat)
  have b: "length (replace_step rules d) \<le> 1"
    using replace_step_length [of rules d] by simp
  have c: "\<forall>q \<in> set (replace_step rules d).
         first_match (expected d) (produced d) = Some (condition q)"
    by (auto simp: replace_step_def dest: classify_replace_first_match split: if_splits)
  have d: "length (replace_loop rules ds []) \<le> length (filter (\<lambda>d. dtype d = Replace) ds)"
    unfolding a
    by (rule concat_short_length) (simp_all add: replace_step_length, simp add: replace_step_def)
  have e: "dtype d = Replace \<longrightarrow>
         identify_patterns [d] rules = replace_step rules d
         \<and> length (identify_patterns [d] rules) \<le> 1"
    using b by (simp add: identify_patterns_split)
  from a b c d e show ?thesis by blast
qed

theorem replace_op_single_pattern_witness:
  "dtype \<lparr>dtype = Replace, expected = [ch_s], produced = [ch_p], position = 0\<rparr> = Replace
   \<and> is_stopping [ch_s] [ch_p] \<and> is_labialization [ch_s] [ch_p]
   \<and> identify_patterns [\<lparr>dtype = Replace, expected = [ch_s], produced = [ch_p], position = 0\<rparr>]
        [row_named (asc ''Labialization''), row_named (asc ''Stopping'')]
      = [make_pattern (asc ''Stopping'') ([ch_s, ch_arrow, ch_p] @ asc '' (fricative to stop)'')
           (asc ''Moderate'') (row_named (asc ''Stopping''))]
   \<and> first_match [ch_s] [ch_p] = Some (asc ''Stopping'')
   \<and> length (identify_patterns [\<lparr>dtype = Replace, expected = [ch_s], produced = [ch_p], position = 0\<rparr>]
        [row_named (asc ''Labialization''), row_named (asc ''Stopping'')]) \<le> 1"
  using replace_op_single_pattern
    [of "[row_named (asc ''Labialization''), row_named (asc ''Stopping'')]"
        "[\<lparr>dtype = Replace, expected = [ch_s], produced = [ch_p], position = 0\<rparr>]"
        "\<lparr>dtype = Replace, expected = [ch_s], produced = [ch_p], position = 0\<rparr>"]
  by (simp add: replace_step_def classify_replace_def is_gliding_def is_stopping_def
      is_labialization_def emit_def select_rule_def row_named_def asc_def make_pattern_def
      first_match_def predicate_table_def)

lemma delete_loop_length: "length (delete_loop rules ds []) \<le> Suc 0"
  by (simp add: delete_loop_find emit_length split: option.split)

lemma replace_part_no_deletion:
  "filter (\<lambda>q. condition q = asc ''Final Consonant Deletion'')
     (concat (map (replace_step rules) ds)) = []"
  by (auto simp: filter_empty_conv replace_step_def dest: classify_replace_not_deletion
      split: if_splits)

lemma case_filter_find:
  "(case filter P xs of [] \<Rightarrow> [] | x # _ \<Rightarrow> f x)
     = (case find P xs of None \<Rightarrow> [] | Some x \<Rightarrow> f x)"
  by (induction xs) auto

lemma delete_loop_rows:
  "delete_loop rules ds [] =
     (case find (\<lambda>d. dtype d = Delete \<and> expected d \<noteq> []) ds of
        None \<Rightarrow> []
      | Some d \<Rightarrow>
          (case find (\<lambda>row. Condition row = asc ''Final Consonant Deletion'') rules of
             None \<Rightarrow> []
           | Some row \<Rightarrow>
               [\<lparr>condition = asc ''Final Consonant Deletion'',
                 pattern = asc ''Omission of /'' @ expected d @ asc ''/'',
                 example = Rule_mapping_example row,
                 clinical_notes = Clinical_notes row,
                 age_concern = Age_of_concern row,
                 severity = asc ''Moderate'',
                 confidence = Confidence_notes row\<rparr>]))"
  unfolding delete_loop_find emit_def select_rule_def case_filter_find make_pattern_def ..

lemma delete_loop_nonempty:
  "(delete_loop rules ds [] \<noteq> []) =
     ((\<exists>d \<in> set ds. dtype d = Delete \<and> expected d \<noteq> [])
      \<and> (\<exists>row \<in> set rules. Condition row = asc ''Final Consonant Deletion''))"
proof -
  have a: "(\<exists>x \<in> set xs. P x) = (find P xs \<noteq> None)" for P and xs :: "'a list"
    by (auto simp: find_None_iff)
  show ?thesis
    unfolding delete_loop_rows a
    by (auto split: option.splits)
qed

lemma find_first:
  "P x \<Longrightarrow> \<forall>y \<in> set pre. \<not> P y \<Longrightarrow> find P (pre @ x # post) = Some x"
  by (induction pre) auto

text \<open>
  C3. The result is the replace-derived patterns in op order, followed by the patterns
  of the second loop. The second loop yields a pattern exactly when the list has a
  delete op with a non-empty expected span and the table has a row whose condition is
  Final Consonant Deletion; the pattern is then the one built from the first such op and
  the first such row, whatever ops follow that op. It is at most one pattern, and the
  whole result holds at most one pattern with the condition Final Consonant Deletion.
\<close>

theorem deletion_pattern_once:
  "identify_patterns ds rules = concat (map (replace_step rules) ds) @ delete_loop rules ds []
   \<and> delete_loop rules ds [] =
       (case find (\<lambda>d. dtype d = Delete \<and> expected d \<noteq> []) ds of
          None \<Rightarrow> []
        | Some d \<Rightarrow>
            (case find (\<lambda>row. Condition row = asc ''Final Consonant Deletion'') rules of
               None \<Rightarrow> []
             | Some row \<Rightarrow>
                 [\<lparr>condition = asc ''Final Consonant Deletion'',
                   pattern = asc ''Omission of /'' @ expected d @ asc ''/'',
                   example = Rule_mapping_example row,
                   clinical_notes = Clinical_notes row,
                   age_concern = Age_of_concern row,
                   severity = asc ''Moderate'',
                   confidence = Confidence_notes row\<rparr>]))
   \<and> (delete_loop rules ds [] \<noteq> []) =
       ((\<exists>d \<in> set ds. dtype d = Delete \<and> expected d \<noteq> [])
        \<and> (\<exists>row \<in> set rules. Condition row = asc ''Final Consonant Deletion''))
   \<and> (dtype d = Delete \<and> expected d \<noteq> []
        \<and> (\<forall>x \<in> set pre. \<not> (dtype x = Delete \<and> expected x \<noteq> [])) \<longrightarrow>
        delete_loop rules (pre @ d # post) [] = delete_loop rules [d] [])
   \<and> length (delete_loop rules ds []) \<le> 1
   \<and> length (filter (\<lambda>q. condition q = asc ''Final Consonant Deletion'')
         (identify_patterns ds rules)) \<le> 1"
proof -
  have c: "length (filter (\<lambda>q. condition q = asc ''Final Consonant Deletion'')
         (identify_patterns ds rules)) \<le> 1"
  proof -
    have "length (filter (\<lambda>q. condition q = asc ''Final Consonant Deletion'')
         (identify_patterns ds rules)) \<le> length (delete_loop rules ds [])"
      by (simp add: identify_patterns_split replace_part_no_deletion)
    then show ?thesis using delete_loop_length [of rules ds] by simp
  qed
  have s: "delete_loop rules (pre @ d # post) [] = delete_loop rules [d] []"
    if "dtype d = Delete \<and> expected d \<noteq> []
        \<and> (\<forall>x \<in> set pre. \<not> (dtype x = Delete \<and> expected x \<noteq> []))"
  proof -
    have "find (\<lambda>d. dtype d = Delete \<and> expected d \<noteq> []) (pre @ d # post) = Some d"
      by (rule find_first) (use that in auto)
    moreover have "find (\<lambda>d. dtype d = Delete \<and> expected d \<noteq> []) [d] = Some d"
      using that by simp
    ultimately show ?thesis by (simp only: delete_loop_find)
  qed
  have l: "length (delete_loop rules ds []) \<le> 1"
    using delete_loop_length [of rules ds] by simp
  from s have s': "dtype d = Delete \<and> expected d \<noteq> []
        \<and> (\<forall>x \<in> set pre. \<not> (dtype x = Delete \<and> expected x \<noteq> [])) \<longrightarrow>
        delete_loop rules (pre @ d # post) [] = delete_loop rules [d] []"
    by (rule impI)
  from identify_patterns_split [of ds rules] delete_loop_rows [of rules ds]
    delete_loop_nonempty [of rules ds] s' l c
  show ?thesis by (intro conjI)
qed

theorem deletion_pattern_once_witness:
  "dtype \<lparr>dtype = Delete, expected = [ch_t], produced = [], position = 2\<rparr> = Delete
   \<and> expected \<lparr>dtype = Delete, expected = [ch_t], produced = [], position = 2\<rparr> \<noteq> []
   \<and> delete_loop [row_named (asc ''Gliding''), row_named (asc ''Final Consonant Deletion'')]
        ([\<lparr>dtype = Insert, expected = [], produced = [ch_s], position = 0\<rparr>]
         @ \<lparr>dtype = Delete, expected = [ch_t], produced = [], position = 2\<rparr>
         # [\<lparr>dtype = Delete, expected = [ch_k], produced = [], position = 5\<rparr>]) []
      = [make_pattern (asc ''Final Consonant Deletion'')
           (asc ''Omission of /'' @ [ch_t] @ asc ''/'') (asc ''Moderate'')
           (row_named (asc ''Final Consonant Deletion''))]
   \<and> identify_patterns
        [\<lparr>dtype = Delete, expected = [ch_t], produced = [], position = 2\<rparr>]
        [row_named (asc ''Gliding'')] = []"
proof -
  let ?d = "\<lparr>dtype = Delete, expected = [ch_t], produced = [], position = 2\<rparr>"
  let ?R = "[row_named (asc ''Gliding''), row_named (asc ''Final Consonant Deletion'')]"
  let ?pre = "[\<lparr>dtype = Insert, expected = [], produced = [ch_s], position = 0\<rparr>]"
  let ?post = "[\<lparr>dtype = Delete, expected = [ch_k], produced = [], position = 5\<rparr>]"
  have h: "dtype ?d = Delete \<and> expected ?d \<noteq> []
        \<and> (\<forall>x \<in> set ?pre. \<not> (dtype x = Delete \<and> expected x \<noteq> []))"
    by simp
  note t = deletion_pattern_once [of "[?d]" ?R ?d ?pre ?post]
  note stop = mp [OF conjunct1 [OF conjunct2 [OF conjunct2 [OF conjunct2 [OF t]]]] h]
  have one: "delete_loop ?R [?d] []
      = [make_pattern (asc ''Final Consonant Deletion'')
           (asc ''Omission of /'' @ [ch_t] @ asc ''/'') (asc ''Moderate'')
           (row_named (asc ''Final Consonant Deletion''))]"
    unfolding conjunct1 [OF conjunct2 [OF t]]
    by (simp add: row_named_def asc_def make_pattern_def)
  have none: "identify_patterns [?d] [row_named (asc ''Gliding'')] = []"
    unfolding conjunct1 [OF deletion_pattern_once [of "[?d]" "[row_named (asc ''Gliding'')]" ?d ?pre ?post]]
      conjunct1 [OF conjunct2 [OF deletion_pattern_once [of "[?d]" "[row_named (asc ''Gliding'')]" ?d ?pre ?post]]]
    by (simp add: replace_step_def row_named_def asc_def)
  from stop one none show ?thesis by simp
qed

lemma find_filter_keep:
  "(\<And>x. P x \<Longrightarrow> K x) \<Longrightarrow> find P (filter K xs) = find P xs"
  by (induction xs) auto

lemma concat_filter_keep:
  "(\<And>x. \<not> K x \<Longrightarrow> f x = []) \<Longrightarrow> concat (map f (filter K xs)) = concat (map f xs)"
  by (induction xs) auto

lemma identify_patterns_filter:
  "identify_patterns (filter (\<lambda>d. dtype d = Replace \<or> dtype d = Delete) ds) rules
     = identify_patterns ds rules"
proof -
  have "find (\<lambda>d. dtype d = Delete \<and> expected d \<noteq> [])
          (filter (\<lambda>d. dtype d = Replace \<or> dtype d = Delete) ds)
        = find (\<lambda>d. dtype d = Delete \<and> expected d \<noteq> []) ds"
    by (rule find_filter_keep) simp
  moreover have "concat (map (replace_step rules) (filter (\<lambda>d. dtype d = Replace \<or> dtype d = Delete) ds))
        = concat (map (replace_step rules) ds)"
    by (rule concat_filter_keep) (auto simp: replace_step_def)
  ultimately show ?thesis
    by (simp add: identify_patterns_split delete_loop_find)
qed

lemma multi_symbol_no_predicate:
  "1 < length e \<or> 1 < length p \<Longrightarrow>
   \<not> is_gliding e p \<and> \<not> is_stopping e p \<and> \<not> is_fronting e p \<and> \<not> is_backing e p
   \<and> \<not> is_labialization e p \<and> \<not> is_voicing e p"
  by (auto simp: is_gliding_def is_stopping_def is_fronting_def is_backing_def
      is_labialization_def is_voicing_def)

lemma find_skip:
  "\<not> P x \<Longrightarrow> find P (xs @ x # ys) = find P (xs @ ys)"
  by (induction xs) auto

lemma identify_patterns_skip:
  assumes "dtype d = Replace" "replace_step rules d = []"
  shows "identify_patterns (pre @ d # post) rules = identify_patterns (pre @ post) rules"
proof -
  have "find (\<lambda>d. dtype d = Delete \<and> expected d \<noteq> []) (pre @ d # post)
        = find (\<lambda>d. dtype d = Delete \<and> expected d \<noteq> []) (pre @ post)"
    by (rule find_skip) (simp add: assms(1))
  then show ?thesis
    by (simp add: identify_patterns_split delete_loop_find assms(2))
qed

text \<open>
  C4. Dropping every insert and equal op from the list does not change the result, and a
  list of insert and equal ops only yields no pattern. A replace op whose expected or
  produced span has more than one symbol satisfies none of the six predicates, adds
  nothing, and can be removed from any list without changing the result.
\<close>

theorem only_replace_and_delete_classified:
  "identify_patterns ds rules
     = identify_patterns (filter (\<lambda>d. dtype d = Replace \<or> dtype d = Delete) ds) rules
   \<and> ((\<forall>d \<in> set ds. dtype d = Insert \<or> dtype d = Equal) \<longrightarrow> identify_patterns ds rules = [])
   \<and> (dtype d = Replace \<and> (1 < length (expected d) \<or> 1 < length (produced d)) \<longrightarrow>
        \<not> is_gliding (expected d) (produced d) \<and> \<not> is_stopping (expected d) (produced d)
        \<and> \<not> is_fronting (expected d) (produced d) \<and> \<not> is_backing (expected d) (produced d)
        \<and> \<not> is_labialization (expected d) (produced d) \<and> \<not> is_voicing (expected d) (produced d)
        \<and> replace_step rules d = []
        \<and> identify_patterns (pre @ d # post) rules = identify_patterns (pre @ post) rules)"
proof -
  have a: "identify_patterns ds rules
     = identify_patterns (filter (\<lambda>d. dtype d = Replace \<or> dtype d = Delete) ds) rules"
    by (simp add: identify_patterns_filter)
  have b: "identify_patterns ds rules = []" if "\<forall>d \<in> set ds. dtype d = Insert \<or> dtype d = Equal"
  proof -
    have "filter (\<lambda>d. dtype d = Replace \<or> dtype d = Delete) ds = []"
      using that by (auto simp: filter_empty_conv)
    then show ?thesis
      using a by (simp add: identify_patterns_def)
  qed
  have c: "\<not> is_gliding (expected d) (produced d) \<and> \<not> is_stopping (expected d) (produced d)
        \<and> \<not> is_fronting (expected d) (produced d) \<and> \<not> is_backing (expected d) (produced d)
        \<and> \<not> is_labialization (expected d) (produced d) \<and> \<not> is_voicing (expected d) (produced d)
        \<and> replace_step rules d = []
        \<and> identify_patterns (pre @ d # post) rules = identify_patterns (pre @ post) rules"
    if r: "dtype d = Replace" and m: "1 < length (expected d) \<or> 1 < length (produced d)"
  proof -
    note n = multi_symbol_no_predicate [OF m]
    have s: "replace_step rules d = []"
      using n by (simp add: replace_step_def classify_replace_def)
    show ?thesis
      using n s identify_patterns_skip [OF r s] by simp
  qed
  from a b c show ?thesis by blast
qed

theorem only_replace_and_delete_classified_witness:
  "dtype \<lparr>dtype = Insert, expected = [], produced = [ch_t], position = 0\<rparr> = Insert
   \<and> dtype \<lparr>dtype = Equal, expected = [ch_k], produced = [ch_k], position = 0\<rparr> = Equal
   \<and> identify_patterns
        [\<lparr>dtype = Insert, expected = [], produced = [ch_t], position = 0\<rparr>,
         \<lparr>dtype = Equal, expected = [ch_k], produced = [ch_k], position = 0\<rparr>]
        [row_named (asc ''Final Consonant Deletion''), row_named (asc ''Fronting (Velar Fronting)'')]
      = []
   \<and> dtype \<lparr>dtype = Replace, expected = [ch_k, ch_g], produced = [ch_t], position = 0\<rparr> = Replace
   \<and> 1 < length (expected \<lparr>dtype = Replace, expected = [ch_k, ch_g], produced = [ch_t], position = 0\<rparr>)
   \<and> identify_patterns
        ([] @ \<lparr>dtype = Replace, expected = [ch_k, ch_g], produced = [ch_t], position = 0\<rparr>
          # [\<lparr>dtype = Delete, expected = [ch_t], produced = [], position = 3\<rparr>])
        [row_named (asc ''Final Consonant Deletion''), row_named (asc ''Fronting (Velar Fronting)'')]
      = identify_patterns
        ([] @ [\<lparr>dtype = Delete, expected = [ch_t], produced = [], position = 3\<rparr>])
        [row_named (asc ''Final Consonant Deletion''), row_named (asc ''Fronting (Velar Fronting)'')]"
  using only_replace_and_delete_classified
    [of "[\<lparr>dtype = Insert, expected = [], produced = [ch_t], position = 0\<rparr>,
         \<lparr>dtype = Equal, expected = [ch_k], produced = [ch_k], position = 0\<rparr>]"
        "[row_named (asc ''Final Consonant Deletion''), row_named (asc ''Fronting (Velar Fronting)'')]"
        "\<lparr>dtype = Replace, expected = [ch_k, ch_g], produced = [ch_t], position = 0\<rparr>"
        "[]" "[\<lparr>dtype = Delete, expected = [ch_t], produced = [], position = 3\<rparr>]"]
  by (simp add: identify_patterns_def replace_step_def classify_replace_def is_gliding_def
      is_stopping_def is_fronting_def is_backing_def is_labialization_def is_voicing_def
      emit_def select_rule_def row_named_def asc_def make_pattern_def)

lemma first_match_voicing:
  "(first_match e p = Some (asc ''Voicing Error'')) =
   (\<not> is_gliding e p \<and> \<not> is_stopping e p \<and> \<not> is_fronting e p \<and> \<not> is_backing e p
    \<and> \<not> is_labialization e p \<and> is_voicing e p)"
  by (simp add: first_match_def predicate_table_def asc_def)

lemma identify_patterns_conditions:
  "q \<in> set (identify_patterns ds rules) \<Longrightarrow> condition q = asc ''Voicing Error'' \<Longrightarrow>
   \<exists>d \<in> set ds. dtype d = Replace \<and> q \<in> set (classify_replace rules (expected d) (produced d))
     \<and> first_match (expected d) (produced d) = Some (asc ''Voicing Error'')"
proof -
  assume q: "q \<in> set (identify_patterns ds rules)" and c: "condition q = asc ''Voicing Error''"
  have "q \<notin> set (delete_loop rules ds [])"
    using c by (auto simp: delete_loop_find asc_def dest!: emit_condition split: option.splits)
  with q obtain d where d: "d \<in> set ds" "q \<in> set (replace_step rules d)"
    by (auto simp: identify_patterns_split)
  then have "dtype d = Replace" "q \<in> set (classify_replace rules (expected d) (produced d))"
    by (auto simp: replace_step_def split: if_splits)
  with d c classify_replace_first_match [of q rules "expected d" "produced d"]
  show ?thesis by auto
qed

text \<open>
  C9. An op is matched by the voicing predicate when the \<open>elif\<close> chain takes the
  voicing branch for it: the voicing condition holds for its spans and none of the five
  conditions tested before it does (voicing is the first match). For such a replace op
  the classifier looks up the key Voicing (Devoicing/Voicing Errors), a string different
  from Voicing Error, and reports the condition Voicing Error; a pattern is emitted
  exactly when some row of the table has the key Voicing (Devoicing/Voicing Errors). For
  any list of ops, a pattern with the condition Voicing Error in the result implies that
  the table has such a row, so a row keyed Voicing Error alone never produces one.
\<close>

theorem voicing_lookup_key:
  "asc ''Voicing Error'' \<noteq> asc ''Voicing (Devoicing/Voicing Errors)''
   \<and> (first_match e p = Some (asc ''Voicing Error'')) =
       (is_voicing e p \<and> \<not> is_gliding e p \<and> \<not> is_stopping e p \<and> \<not> is_fronting e p
        \<and> \<not> is_backing e p \<and> \<not> is_labialization e p)
   \<and> (is_voicing e p \<and> \<not> is_gliding e p \<and> \<not> is_stopping e p \<and> \<not> is_fronting e p
        \<and> \<not> is_backing e p \<and> \<not> is_labialization e p \<longrightarrow>
        classify_replace rules e p =
          emit rules (asc ''Voicing (Devoicing/Voicing Errors)'') (asc ''Voicing Error'')
            (e @ [ch_arrow] @ p) (asc ''Mild'')
        \<and> (\<forall>q \<in> set (classify_replace rules e p). condition q = asc ''Voicing Error'')
        \<and> (classify_replace rules e p \<noteq> []) =
            (\<exists>row \<in> set rules. Condition row = asc ''Voicing (Devoicing/Voicing Errors)'')
        \<and> identify_patterns [\<lparr>dtype = Replace, expected = e, produced = p, position = i\<rparr>] rules
            = classify_replace rules e p)
   \<and> ((\<exists>q \<in> set (identify_patterns ds rules). condition q = asc ''Voicing Error'') \<longrightarrow>
        (\<exists>row \<in> set rules. Condition row = asc ''Voicing (Devoicing/Voicing Errors)''))"
proof -
  have a: "asc ''Voicing Error'' \<noteq> asc ''Voicing (Devoicing/Voicing Errors)''"
    by (simp add: asc_def)
  have v: "(first_match e p = Some (asc ''Voicing Error'')) =
       (is_voicing e p \<and> \<not> is_gliding e p \<and> \<not> is_stopping e p \<and> \<not> is_fronting e p
        \<and> \<not> is_backing e p \<and> \<not> is_labialization e p)" for e p
    unfolding first_match_voicing by blast
  have b: "classify_replace rules e p =
          emit rules (asc ''Voicing (Devoicing/Voicing Errors)'') (asc ''Voicing Error'')
            (e @ [ch_arrow] @ p) (asc ''Mild'')"
    if "first_match e p = Some (asc ''Voicing Error'')" for e p
    using that unfolding first_match_voicing by (simp add: classify_replace_def)
  have c: "\<forall>q \<in> set (classify_replace rules e p). condition q = asc ''Voicing Error''"
    if "first_match e p = Some (asc ''Voicing Error'')"
    using b [OF that] by (auto dest: emit_condition)
  have d: "(classify_replace rules e p \<noteq> []) =
            (\<exists>row \<in> set rules. Condition row = asc ''Voicing (Devoicing/Voicing Errors)'')"
    if "first_match e p = Some (asc ''Voicing Error'')" for e p
    using b [OF that] by (simp add: emit_nonempty)
  have e: "identify_patterns [\<lparr>dtype = Replace, expected = e, produced = p, position = i\<rparr>] rules
            = classify_replace rules e p"
    by (simp add: identify_patterns_split replace_step_def)
  have f: "\<exists>row \<in> set rules. Condition row = asc ''Voicing (Devoicing/Voicing Errors)''"
    if "\<exists>q \<in> set (identify_patterns ds rules). condition q = asc ''Voicing Error''"
  proof -
    from that obtain q where "q \<in> set (identify_patterns ds rules)" "condition q = asc ''Voicing Error''"
      by blast
    from identify_patterns_conditions [OF this] obtain x :: diff where
      x: "q \<in> set (classify_replace rules (expected x) (produced x))"
         "first_match (expected x) (produced x) = Some (asc ''Voicing Error'')"
      by auto
    then have "classify_replace rules (expected x) (produced x) \<noteq> []" by auto
    with d [OF x(2)] show ?thesis by simp
  qed
  have g: "classify_replace rules e p =
          emit rules (asc ''Voicing (Devoicing/Voicing Errors)'') (asc ''Voicing Error'')
            (e @ [ch_arrow] @ p) (asc ''Mild'')
        \<and> (\<forall>q \<in> set (classify_replace rules e p). condition q = asc ''Voicing Error'')
        \<and> (classify_replace rules e p \<noteq> []) =
            (\<exists>row \<in> set rules. Condition row = asc ''Voicing (Devoicing/Voicing Errors)'')
        \<and> identify_patterns [\<lparr>dtype = Replace, expected = e, produced = p, position = i\<rparr>] rules
            = classify_replace rules e p"
    if h: "is_voicing e p \<and> \<not> is_gliding e p \<and> \<not> is_stopping e p \<and> \<not> is_fronting e p
        \<and> \<not> is_backing e p \<and> \<not> is_labialization e p"
  proof -
    from h have m: "first_match e p = Some (asc ''Voicing Error'')"
      unfolding v .
    from b [OF m] c [OF m] d [OF m] e show ?thesis by (intro conjI)
  qed
  have g': "is_voicing e p \<and> \<not> is_gliding e p \<and> \<not> is_stopping e p \<and> \<not> is_fronting e p
        \<and> \<not> is_backing e p \<and> \<not> is_labialization e p \<longrightarrow>
        classify_replace rules e p =
          emit rules (asc ''Voicing (Devoicing/Voicing Errors)'') (asc ''Voicing Error'')
            (e @ [ch_arrow] @ p) (asc ''Mild'')
        \<and> (\<forall>q \<in> set (classify_replace rules e p). condition q = asc ''Voicing Error'')
        \<and> (classify_replace rules e p \<noteq> []) =
            (\<exists>row \<in> set rules. Condition row = asc ''Voicing (Devoicing/Voicing Errors)'')
        \<and> identify_patterns [\<lparr>dtype = Replace, expected = e, produced = p, position = i\<rparr>] rules
            = classify_replace rules e p"
    using g by (rule impI)
  have f': "(\<exists>q \<in> set (identify_patterns ds rules). condition q = asc ''Voicing Error'') \<longrightarrow>
        (\<exists>row \<in> set rules. Condition row = asc ''Voicing (Devoicing/Voicing Errors)'')"
    using f by (rule impI)
  from a v [of e p] g' f' show ?thesis by (intro conjI)
qed

theorem voicing_lookup_key_witness:
  "is_voicing [ch_t] [ch_d] \<and> \<not> is_gliding [ch_t] [ch_d] \<and> \<not> is_stopping [ch_t] [ch_d]
   \<and> \<not> is_fronting [ch_t] [ch_d] \<and> \<not> is_backing [ch_t] [ch_d]
   \<and> \<not> is_labialization [ch_t] [ch_d]
   \<and> identify_patterns [\<lparr>dtype = Replace, expected = [ch_t], produced = [ch_d], position = 0\<rparr>]
        [row_named (asc ''Voicing Error'')] = []
   \<and> identify_patterns [\<lparr>dtype = Replace, expected = [ch_t], produced = [ch_d], position = 0\<rparr>]
        [row_named (asc ''Voicing (Devoicing/Voicing Errors)'')]
      = [make_pattern (asc ''Voicing Error'') [ch_t, ch_arrow, ch_d] (asc ''Mild'')
           (row_named (asc ''Voicing (Devoicing/Voicing Errors)''))]"
proof -
  have fm: "is_voicing [ch_t] [ch_d] \<and> \<not> is_gliding [ch_t] [ch_d] \<and> \<not> is_stopping [ch_t] [ch_d]
   \<and> \<not> is_fronting [ch_t] [ch_d] \<and> \<not> is_backing [ch_t] [ch_d]
   \<and> \<not> is_labialization [ch_t] [ch_d]"
    by (simp add: is_gliding_def is_stopping_def is_fronting_def is_backing_def
        is_labialization_def is_voicing_def)
  have i1: "identify_patterns [\<lparr>dtype = Replace, expected = [ch_t], produced = [ch_d], position = 0\<rparr>]
        [row_named (asc ''Voicing Error'')]
      = emit [row_named (asc ''Voicing Error'')] (asc ''Voicing (Devoicing/Voicing Errors)'')
          (asc ''Voicing Error'') ([ch_t] @ [ch_arrow] @ [ch_d]) (asc ''Mild'')"
  proof -
    note k = mp [OF conjunct1 [OF conjunct2 [OF conjunct2 [OF voicing_lookup_key
      [of "[ch_t]" "[ch_d]" "[row_named (asc ''Voicing Error'')]" 0 "[]"]]]] fm]
    from conjunct2 [OF conjunct2 [OF conjunct2 [OF k]]] conjunct1 [OF k]
    show ?thesis by (rule trans)
  qed
  have i2: "identify_patterns [\<lparr>dtype = Replace, expected = [ch_t], produced = [ch_d], position = 0\<rparr>]
        [row_named (asc ''Voicing (Devoicing/Voicing Errors)'')]
      = emit [row_named (asc ''Voicing (Devoicing/Voicing Errors)'')]
          (asc ''Voicing (Devoicing/Voicing Errors)'')
          (asc ''Voicing Error'') ([ch_t] @ [ch_arrow] @ [ch_d]) (asc ''Mild'')"
  proof -
    note k = mp [OF conjunct1 [OF conjunct2 [OF conjunct2 [OF voicing_lookup_key
      [of "[ch_t]" "[ch_d]" "[row_named (asc ''Voicing (Devoicing/Voicing Errors)'')]" 0 "[]"]]]] fm]
    from conjunct2 [OF conjunct2 [OF conjunct2 [OF k]]] conjunct1 [OF k]
    show ?thesis by (rule trans)
  qed
  have e1: "emit [row_named (asc ''Voicing Error'')] (asc ''Voicing (Devoicing/Voicing Errors)'')
          (asc ''Voicing Error'') ([ch_t] @ [ch_arrow] @ [ch_d]) (asc ''Mild'') = []"
    by (simp add: emit_def select_rule_def row_named_def asc_def)
  have e2: "emit [row_named (asc ''Voicing (Devoicing/Voicing Errors)'')]
          (asc ''Voicing (Devoicing/Voicing Errors)'')
          (asc ''Voicing Error'') ([ch_t] @ [ch_arrow] @ [ch_d]) (asc ''Mild'')
       = [make_pattern (asc ''Voicing Error'') [ch_t, ch_arrow, ch_d] (asc ''Mild'')
           (row_named (asc ''Voicing (Devoicing/Voicing Errors)''))]"
    by (simp add: emit_def select_rule_def row_named_def)
  show ?thesis
    unfolding i1 i2 e1 e2 using fm by simp
qed

lemma classify_replace_fallback: "classify_replace fallback_rules e p = []"
  by (simp add: classify_replace_def emit_def select_rule_def fallback_rules_def asc_def)

lemma delete_loop_fallback: "delete_loop fallback_rules ds [] = []"
  by (simp add: delete_loop_find emit_def select_rule_def fallback_rules_def asc_def
      split: option.split)

lemma replace_step_fallback: "replace_step fallback_rules d = []"
  by (simp add: replace_step_def classify_replace_fallback)

lemma replace_part_fallback: "concat (map (replace_step fallback_rules) ds) = []"
  by (induction ds) (simp_all add: replace_step_fallback)

text \<open>
  C10. With the embedded fallback table (the rows Articulation Disorder and
  Phonological Disorder) the classifier returns the empty list for every list of ops:
  none of the seven lookups finds a row.
\<close>

theorem fallback_rules_no_patterns:
  "identify_patterns ds (load_speech_rules None) = []"
  by (simp add: load_speech_rules_def identify_patterns_split replace_part_fallback
      delete_loop_fallback)

section \<open>Properties of the alignment engine\<close>

text \<open>
  Comparing a string with itself: the positions of a symbol, the value
  \<open>j2len.get(j-1, 0)\<close>, and the length of the run of symbols kept in \<open>b2j\<close> that ends
  just before a position.
\<close>

definition indices_of :: "pystr \<Rightarrow> nat \<Rightarrow> nat list" where
  "indices_of b x = filter (\<lambda>j. b ! j = x) [0..<length b]"

definition upleft :: "(nat \<rightharpoonup> nat) \<Rightarrow> nat \<Rightarrow> nat" where
  "upleft m j = (if j = 0 then 0 else (case m (j - 1) of None \<Rightarrow> 0 | Some v \<Rightarrow> v))"

fun prun :: "(nat \<Rightarrow> bool) \<Rightarrow> pystr \<Rightarrow> nat \<Rightarrow> nat" where
  "prun np a 0 = 0"
| "prun np a (Suc i) = (if np (a ! i) then prun np a i + 1 else 0)"

lemma upleft_0: "upleft m 0 = 0"
  by (simp add: upleft_def)

lemma upleft_Suc: "upleft m (Suc y) = (case m y of None \<Rightarrow> 0 | Some v \<Rightarrow> v)"
  by (simp add: upleft_def)

lemma upleft_empty: "upleft Map.empty j = 0"
  by (simp add: upleft_def)

lemma prun_le: "prun np a i \<le> i"
  by (induction i) auto

lemma inner_loop_append:
  "\<forall>j \<in> set xs. j < bhi \<Longrightarrow>
   inner_loop i blo bhi m (xs @ ys) st = inner_loop i blo bhi m ys (inner_loop i blo bhi m xs st)"
proof (induction xs arbitrary: st)
  case Nil
  then show ?case by simp
next
  case (Cons j xs)
  obtain nm bi bj bs where st: "st = (nm, bi, bj, bs)" by (cases st) auto
  from Cons show ?case by (simp add: st Let_def)
qed

lemma inner_loop_noupdate:
  "\<forall>j \<in> set js. j < bhi \<and> upleft m j + 1 \<le> bs \<Longrightarrow>
   inner_loop i 0 bhi m js (nm, bi, bj, bs)
     = (fold (\<lambda>j nm. nm(j \<mapsto> upleft m j + 1)) js nm, bi, bj, bs)"
  by (induction js arbitrary: nm) (auto simp: upleft_def Let_def)

lemma inner_loop_single:
  "j < bhi \<Longrightarrow>
   inner_loop i 0 bhi m [j] (nm, bi, bj, bs)
     = (nm(j \<mapsto> upleft m j + 1),
        if upleft m j + 1 > bs then (i + 1 - (upleft m j + 1), j + 1 - (upleft m j + 1), upleft m j + 1)
        else (bi, bj, bs))"
  by (simp add: upleft_def Let_def)

lemma fold_upd_get:
  "fold (\<lambda>j nm. nm(j \<mapsto> f j)) js nm x = (if x \<in> set js then Some (f x) else nm x)"
  by (induction js arbitrary: nm) auto

lemma inner_loop_row:
  assumes "i < n" "P i"
    and lt: "\<forall>j<i. P j \<longrightarrow> upleft m j + 1 \<le> bs"
    and gt: "\<forall>j<n. P j \<longrightarrow> upleft m j \<le> upleft m i"
  shows "inner_loop i 0 n m (filter P [0..<n]) (Map.empty, bi, bj, bs)
     = (fold (\<lambda>j nm. nm(j \<mapsto> upleft m j + 1)) (filter P [0..<n]) Map.empty,
        if upleft m i + 1 > bs
        then (i + 1 - (upleft m i + 1), i + 1 - (upleft m i + 1), upleft m i + 1)
        else (bi, bj, bs))"
proof -
  let ?L = "filter P [0..<i]" and ?G = "filter P [Suc i..<n]"
  let ?u = "\<lambda>j nm. nm(j \<mapsto> upleft m j + 1)"
  let ?K = "upleft m i + 1"
  let ?best1 = "if ?K > bs then (i + 1 - ?K, i + 1 - ?K, ?K) else (bi, bj, bs)"
  have split: "filter P [0..<n] = ?L @ [i] @ ?G"
  proof -
    have "[0..<n] = [0..<i] @ [i] @ [Suc i..<n]"
      using assms(1) by (metis append_Cons append_Nil le_add1 le_add_same_cancel1 less_imp_add_positive
          upt_add_eq_append upt_conv_Cons)
    then have "filter P [0..<n] = filter P ([0..<i] @ [i] @ [Suc i..<n])" by simp
    then show ?thesis using assms(2) by simp
  qed
  have s1: "inner_loop i 0 n m ?L (Map.empty, bi, bj, bs) = (fold ?u ?L Map.empty, bi, bj, bs)"
    by (rule inner_loop_noupdate) (use assms(1) lt in auto)
  have s2: "inner_loop i 0 n m [i] (fold ?u ?L Map.empty, bi, bj, bs)
        = (fold ?u (?L @ [i]) Map.empty, ?best1)"
    using assms(1) by (simp add: inner_loop_single del: inner_loop.simps)
  obtain ci cj cs where c: "?best1 = (ci, cj, cs)" by (cases ?best1) auto
  have cs: "?K \<le> cs" using c by (auto split: if_splits)
  have s3: "inner_loop i 0 n m ?G (fold ?u (?L @ [i]) Map.empty, ci, cj, cs)
        = (fold ?u ?G (fold ?u (?L @ [i]) Map.empty), ci, cj, cs)"
    by (rule inner_loop_noupdate) (use gt cs in force)
  have "inner_loop i 0 n m (?L @ [i] @ ?G) (Map.empty, bi, bj, bs)
        = inner_loop i 0 n m ?G (inner_loop i 0 n m [i] (inner_loop i 0 n m ?L (Map.empty, bi, bj, bs)))"
  proof -
    have "inner_loop i 0 n m (?L @ [i] @ ?G) (Map.empty, bi, bj, bs)
        = inner_loop i 0 n m ([i] @ ?G) (inner_loop i 0 n m ?L (Map.empty, bi, bj, bs))"
      by (rule inner_loop_append) (use assms(1) in auto)
    also have "\<dots> = inner_loop i 0 n m ?G
          (inner_loop i 0 n m [i] (inner_loop i 0 n m ?L (Map.empty, bi, bj, bs)))"
      by (rule inner_loop_append) (use assms(1) in auto)
    finally show ?thesis .
  qed
  also have "\<dots> = (fold ?u ?G (fold ?u (?L @ [i]) Map.empty), ?best1)"
    unfolding s1 s2 c s3 ..
  finally show ?thesis
    unfolding split by simp
qed

definition row_inv :: "(nat \<Rightarrow> bool) \<Rightarrow> pystr \<Rightarrow> nat \<Rightarrow> (nat \<rightharpoonup> nat) \<Rightarrow> bool" where
  "row_inv np a i m =
     ((\<forall>j. upleft m j \<le> prun np a i \<and> upleft m j \<le> prun np a j) \<and> upleft m i = prun np a i)"

definition diag_inv :: "(nat \<Rightarrow> bool) \<Rightarrow> pystr \<Rightarrow> nat \<Rightarrow> match \<Rightarrow> bool" where
  "diag_inv np a i best =
     (case best of (bi, bj, bs) \<Rightarrow> bi = bj \<and> bi + bs \<le> i \<and> (\<forall>i' \<le> i. prun np a i' \<le> bs))"

lemma row_inv_empty:
  "\<not> np (a ! i) \<Longrightarrow> row_inv np a (Suc i) Map.empty"
  by (simp add: row_inv_def upleft_empty)

lemma diag_inv_skip:
  "\<not> np (a ! i) \<Longrightarrow> diag_inv np a i best \<Longrightarrow> diag_inv np a (Suc i) best"
  by (auto simp: diag_inv_def le_Suc_eq)

lemma row_inv_step:
  assumes "row_inv np a i m" "np (a ! i)" "i < length a"
  shows "row_inv np a (Suc i)
           (fold (\<lambda>j nm. nm(j \<mapsto> upleft m j + 1)) (indices_of a (a ! i)) Map.empty)"
proof -
  let ?m' = "fold (\<lambda>j nm. nm(j \<mapsto> upleft m j + 1)) (indices_of a (a ! i)) Map.empty"
  have get: "?m' y = (if y \<in> set (indices_of a (a ! i)) then Some (upleft m y + 1) else None)" for y
    by (simp add: fold_upd_get)
  have mem: "y \<in> set (indices_of a (a ! i)) \<longleftrightarrow> y < length a \<and> a ! y = a ! i" for y
    by (auto simp: indices_of_def)
  have u: "upleft ?m' (Suc y) = (if y < length a \<and> a ! y = a ! i then upleft m y + 1 else 0)" for y
  proof -
    have "upleft ?m' (Suc y) = (case ?m' y of None \<Rightarrow> 0 | Some v \<Rightarrow> v)"
      by (rule upleft_Suc)
    then show ?thesis unfolding get mem by simp
  qed
  have b: "upleft ?m' j \<le> prun np a (Suc i) \<and> upleft ?m' j \<le> prun np a j" for j
  proof (cases j)
    case 0
    then show ?thesis by (simp add: upleft_0)
  next
    case (Suc y)
    show ?thesis
      using assms(1,2) unfolding Suc u row_inv_def by auto
  qed
  have "upleft ?m' (Suc i) = prun np a (Suc i)"
    using assms unfolding u row_inv_def by simp
  with b show ?thesis unfolding row_inv_def by blast
qed

lemma diag_inv_step:
  assumes "row_inv np a i m" "np (a ! i)" "diag_inv np a i (bi, bj, bs)"
  shows "diag_inv np a (Suc i)
           (if upleft m i + 1 > bs
            then (i + 1 - (upleft m i + 1), i + 1 - (upleft m i + 1), upleft m i + 1)
            else (bi, bj, bs))"
proof -
  have k: "upleft m i + 1 = prun np a (Suc i)"
    using assms(1,2) by (simp add: row_inv_def)
  have le: "prun np a (Suc i) \<le> Suc i" by (rule prun_le)
  show ?thesis
    using assms(3) le unfolding k diag_inv_def
    by (auto simp: le_Suc_eq)
qed

lemma outer_loop_diag:
  assumes b2j: "\<forall>x js. b2j x = Some js \<longrightarrow> js = indices_of a x"
  shows "i \<le> length a \<Longrightarrow> row_inv (\<lambda>x. b2j x \<noteq> None) a i m \<Longrightarrow>
         diag_inv (\<lambda>x. b2j x \<noteq> None) a i best \<Longrightarrow>
         \<exists>d s. outer_loop a b2j 0 (length a) i (length a) (m, best) = (d, d, s) \<and> d + s \<le> length a"
proof (induction "length a - i" arbitrary: i m best)
  case 0
  then have i: "i = length a" by simp
  obtain bi bj bs where best: "best = (bi, bj, bs)" by (cases best) auto
  have "outer_loop a b2j 0 (length a) i (length a) (m, best) = best"
    by (subst outer_loop.simps) (simp add: i)
  with "0.prems"(3) show ?case by (auto simp: best diag_inv_def i)
next
  case (Suc k)
  then have lt: "i < length a" by simp
  let ?np = "\<lambda>x. b2j x \<noteq> None"
  obtain bi bj bs where best: "best = (bi, bj, bs)" by (cases best) auto
  have "\<exists>m' best'. inner_loop i 0 (length a) m (case b2j (a ! i) of None \<Rightarrow> [] | Some js \<Rightarrow> js)
            (Map.empty, best) = (m', best')
          \<and> row_inv ?np a (Suc i) m' \<and> diag_inv ?np a (Suc i) best'"
  proof (cases "b2j (a ! i)")
    case None
    then show ?thesis
      using row_inv_empty [of ?np a i] diag_inv_skip [of ?np a i best] Suc.prems(3) by simp
  next
    case (Some js)
    then have js: "js = filter (\<lambda>j. a ! j = a ! i) [0..<length a]"
      using b2j by (simp add: indices_of_def)
    have np: "?np (a ! i)" using Some by simp
    have r: "row_inv ?np a i m" by fact
    have l: "\<forall>j<i. a ! j = a ! i \<longrightarrow> upleft m j + 1 \<le> bs"
    proof (intro allI impI)
      fix j assume j: "j < i" "a ! j = a ! i"
      have "upleft m j + 1 \<le> prun ?np a j + 1" using r by (simp add: row_inv_def)
      also have "\<dots> = prun ?np a (Suc j)" using np j(2) by simp
      also have "\<dots> \<le> bs"
      proof -
        have "\<forall>i'\<le>i. prun ?np a i' \<le> bs"
          using Suc.prems(3) by (simp add: best diag_inv_def)
        moreover have "Suc j \<le> i" using j(1) by simp
        ultimately show ?thesis by blast
      qed
      finally show "upleft m j + 1 \<le> bs" .
    qed
    have g: "\<forall>j<length a. a ! j = a ! i \<longrightarrow> upleft m j \<le> upleft m i"
      using r by (simp add: row_inv_def)
    have "inner_loop i 0 (length a) m js (Map.empty, bi, bj, bs)
       = (fold (\<lambda>j nm. nm(j \<mapsto> upleft m j + 1)) js Map.empty,
          if upleft m i + 1 > bs
          then (i + 1 - (upleft m i + 1), i + 1 - (upleft m i + 1), upleft m i + 1)
          else (bi, bj, bs))"
      unfolding js by (rule inner_loop_row [OF lt _ l g]) simp
    moreover have "row_inv ?np a (Suc i) (fold (\<lambda>j nm. nm(j \<mapsto> upleft m j + 1)) js Map.empty)"
      using row_inv_step [OF r np lt] by (simp add: js indices_of_def)
    moreover have "diag_inv ?np a (Suc i)
           (if upleft m i + 1 > bs
            then (i + 1 - (upleft m i + 1), i + 1 - (upleft m i + 1), upleft m i + 1)
            else (bi, bj, bs))"
      using Suc.prems(3) unfolding best by (rule diag_inv_step [OF r np])
    ultimately show ?thesis
      unfolding best Some by (intro exI conjI) (simp_all del: inner_loop.simps)
  qed
  then obtain m' best' where
    in_eq: "inner_loop i 0 (length a) m (case b2j (a ! i) of None \<Rightarrow> [] | Some js \<Rightarrow> js)
            (Map.empty, best) = (m', best')"
    and r': "row_inv ?np a (Suc i) m'" and d': "diag_inv ?np a (Suc i) best'"
    by blast
  have step: "outer_loop a b2j 0 (length a) i (length a) (m, best)
      = outer_loop a b2j 0 (length a) (Suc i) (length a) (m', best')"
    by (subst outer_loop.simps) (use lt in_eq in simp)
  have "k = length a - Suc i" using Suc.hyps(2) by simp
  from Suc.hyps(1) [OF this _ r' d'] lt show ?case
    unfolding step by simp
qed

lemma extend_left_diag: "extend_left a a 0 0 (d, d, s) = (0, 0, s + d)"
proof (induction d arbitrary: s)
  case 0
  show ?case by (subst extend_left.simps) simp
next
  case (Suc d)
  have "extend_left a a 0 0 (Suc d, Suc d, s) = extend_left a a 0 0 (d, d, s + 1)"
    by (subst extend_left.simps) simp
  then show ?case by (simp add: Suc)
qed

lemma extend_right_diag: "s \<le> n \<Longrightarrow> extend_right a a n n (0, 0, s) = (0, 0, n)"
proof (induction "n - s" arbitrary: s)
  case 0
  then have "s = n" by simp
  then show ?case by (subst extend_right.simps) simp
next
  case (Suc k)
  then have lt: "s < n" by simp
  have "extend_right a a n n (0, 0, s) = extend_right a a n n (0, 0, s + 1)"
    by (subst extend_right.simps) (use lt in simp)
  moreover have "extend_right a a n n (0, 0, s + 1) = (0, 0, n)"
    by (rule Suc.hyps(1)) (use Suc.hyps(2) lt in auto)
  ultimately show ?case by simp
qed

lemma find_longest_match_self:
  assumes "\<forall>x js. b2j x = Some js \<longrightarrow> js = indices_of a x"
  shows "find_longest_match a a b2j 0 (length a) 0 (length a) = (0, 0, length a)"
proof -
  let ?np = "\<lambda>x. b2j x \<noteq> None"
  have "row_inv ?np a 0 Map.empty" by (simp add: row_inv_def upleft_empty)
  moreover have "diag_inv ?np a 0 (0, 0, 0)" by (simp add: diag_inv_def)
  ultimately obtain d s where
    o: "outer_loop a b2j 0 (length a) 0 (length a) (Map.empty, (0, 0, 0)) = (d, d, s)"
    and le: "d + s \<le> length a"
    using outer_loop_diag [OF assms, where i = 0 and m = Map.empty and best = "(0, 0, 0)"]
    by auto
  show ?thesis
    unfolding find_longest_match_def o extend_left_diag
    by (rule extend_right_diag) (use le in simp)
qed

lemma fold_setdefault:
  assumes f: "\<And>i e m. f (i, e) m = m(e \<mapsto> (case m e of None \<Rightarrow> [] | Some l \<Rightarrow> l) @ [i])"
  shows "fold f ps m x
   = (if map fst (filter (\<lambda>p. snd p = x) ps) = [] then m x
      else Some ((case m x of None \<Rightarrow> [] | Some l \<Rightarrow> l) @ map fst (filter (\<lambda>p. snd p = x) ps)))"
proof (induction ps arbitrary: m)
  case Nil
  show ?case by simp
next
  case (Cons p ps)
  obtain i e where p: "p = (i, e)" by (cases p) auto
  show ?case by (simp add: p f Cons split: option.split)
qed

lemma enumerate_indices:
  "map fst (filter (\<lambda>p. snd p = x) (enumerate 0 b)) = indices_of b x"
proof (induction b rule: rev_induct)
  case Nil
  show ?case by (simp add: indices_of_def)
next
  case (snoc y b)
  have "filter (\<lambda>j. (b @ [y]) ! j = x) [0..<length b] = filter (\<lambda>j. b ! j = x) [0..<length b]"
    by (rule filter_cong) (simp_all add: nth_append)
  then have "indices_of (b @ [y]) x = indices_of b x @ (if y = x then [length b] else [])"
    by (simp add: indices_of_def)
  then show ?case
    using snoc by (simp add: enumerate_append_eq)
qed

lemma chain_b_eq:
  "chain_b b x =
     (if indices_of b x = []
         \<or> (200 \<le> length b \<and> length b div 100 + 1 < length (indices_of b x))
      then None else Some (indices_of b x))"
proof -
  let ?f = "\<lambda>(i, elt) m. m(elt \<mapsto> (case m elt of None \<Rightarrow> [] | Some l \<Rightarrow> l) @ [i])"
  have raw: "fold ?f (enumerate 0 b) Map.empty x
      = (if indices_of b x = [] then None else Some (indices_of b x))" for x
    by (subst fold_setdefault [where f = ?f]) (simp_all add: enumerate_indices)
  show ?thesis
    unfolding chain_b_def Let_def raw by simp
qed

lemma chain_b_indices:
  "\<forall>x js. chain_b b x = Some js \<longrightarrow> js = indices_of b x"
  unfolding chain_b_eq by simp

lemma blocks_loop_self:
  "blocks_loop a a (chain_b a) [(0, length a, 0, length a)] []
     = (if length a = 0 then [] else [(0, 0, length a)])"
proof -
  have f: "find_longest_match a a (chain_b a) 0 (length a) 0 (length a) = (0, 0, length a)"
    by (rule find_longest_match_self) (rule chain_b_indices)
  show ?thesis
    by (subst blocks_loop.simps) (simp add: f blocks_loop.simps(1))
qed

lemma get_matching_blocks_self:
  "get_matching_blocks a a
     = (if length a = 0 then [] else [(0, 0, length a)]) @ [(length a, length a, 0)]"
  by (simp add: get_matching_blocks_def Let_def blocks_loop_self)

lemma get_opcodes_self:
  "get_opcodes a a = (if length a = 0 then [] else [(Equal, 0, length a, 0, length a)])"
  by (simp add: get_opcodes_def get_matching_blocks_self Let_def)

lemma ratio_self: "ratio a a = 1"
  by (simp add: ratio_def get_matching_blocks_self calculate_ratio_def)

text \<open>
  C5. For every phonetic string, comparing it with itself (both sides stripped of their
  delimiters) gives the similarity 1 and no difference record: the only opcode, if any,
  is \<open>equal\<close>.
\<close>

theorem self_alignment_identical:
  "compare_ipa_transcriptions A A = ([], 1)"
  by (simp add: compare_ipa_transcriptions_def Let_def get_opcodes_self ratio_self)













lemma strip_kat: "strip_slash [ch_slash, ch_k, ch_ash, ch_t, ch_slash] = [ch_k, ch_ash, ch_t]"
  by (simp add: strip_slash_def)

lemma strip_tat: "strip_slash [ch_slash, ch_t, ch_ash, ch_t, ch_slash] = [ch_t, ch_ash, ch_t]"
  by (simp add: strip_slash_def)

lemma mb_kat_tat:
  "get_matching_blocks [ch_k, ch_ash, ch_t] [ch_t, ch_ash, ch_t] = [(1, 1, 2), (3, 3, 0)]"
  by code_simp

lemma differences_kat_tat:
  "fst (compare_ipa_transcriptions [ch_slash, ch_t, ch_ash, ch_t, ch_slash]
          [ch_slash, ch_k, ch_ash, ch_t, ch_slash])
     = [\<lparr>dtype = Replace, expected = [ch_k], produced = [ch_t], position = 0\<rparr>]"
  by (simp add: compare_ipa_transcriptions_def Let_def strip_kat strip_tat get_opcodes_def
      mb_kat_tat slice_def)

text \<open>
  C8. For the expected string \<open>/k\<ae>t/\<close> and the produced string \<open>/t\<ae>t/\<close> the differences
  are exactly one replace op at position 0 with the spans \<open>k\<close> and \<open>t\<close>; with a rule
  table that has a row Fronting (Velar Fronting) the classifier returns exactly one
  pattern, built from the first such row, with that condition, the pattern text
  \<open>k\<rightarrow>t\<close> and the severity Moderate.
\<close>

theorem kat_tat_fronting:
  "fst (compare_ipa_transcriptions [ch_slash, ch_t, ch_ash, ch_t, ch_slash]
          [ch_slash, ch_k, ch_ash, ch_t, ch_slash])
     = [\<lparr>dtype = Replace, expected = [ch_k], produced = [ch_t], position = 0\<rparr>]
   \<and> ((\<exists>row \<in> set rules. Condition row = asc ''Fronting (Velar Fronting)'') \<longrightarrow>
        identify_patterns
          (fst (compare_ipa_transcriptions [ch_slash, ch_t, ch_ash, ch_t, ch_slash]
                  [ch_slash, ch_k, ch_ash, ch_t, ch_slash])) rules
        = [make_pattern (asc ''Fronting (Velar Fronting)'') [ch_k, ch_arrow, ch_t] (asc ''Moderate'')
             (hd (select_rule rules (asc ''Fronting (Velar Fronting)'')))]
        \<and> map condition (identify_patterns
          (fst (compare_ipa_transcriptions [ch_slash, ch_t, ch_ash, ch_t, ch_slash]
                  [ch_slash, ch_k, ch_ash, ch_t, ch_slash])) rules)
           = [asc ''Fronting (Velar Fronting)'']
        \<and> map pattern (identify_patterns
          (fst (compare_ipa_transcriptions [ch_slash, ch_t, ch_ash, ch_t, ch_slash]
                  [ch_slash, ch_k, ch_ash, ch_t, ch_slash])) rules)
           = [[ch_k, ch_arrow, ch_t]]
        \<and> map severity (identify_patterns
          (fst (compare_ipa_transcriptions [ch_slash, ch_t, ch_ash, ch_t, ch_slash]
                  [ch_slash, ch_k, ch_ash, ch_t, ch_slash])) rules)
           = [asc ''Moderate''])"
proof -
  have f: "is_fronting [ch_k] [ch_t]" "\<not> is_gliding [ch_k] [ch_t]" "\<not> is_stopping [ch_k] [ch_t]"
    by (simp_all add: is_fronting_def is_gliding_def is_stopping_def)
  have "identify_patterns [\<lparr>dtype = Replace, expected = [ch_k], produced = [ch_t], position = 0\<rparr>] rules
      = [make_pattern (asc ''Fronting (Velar Fronting)'') [ch_k, ch_arrow, ch_t] (asc ''Moderate'')
             (hd (select_rule rules (asc ''Fronting (Velar Fronting)'')))]"
    if "\<exists>row \<in> set rules. Condition row = asc ''Fronting (Velar Fronting)''"
  proof -
    from that have "select_rule rules (asc ''Fronting (Velar Fronting)'') \<noteq> []"
      by (simp add: select_rule_def filter_empty_conv)
    then obtain r rs where "select_rule rules (asc ''Fronting (Velar Fronting)'') = r # rs"
      by (cases "select_rule rules (asc ''Fronting (Velar Fronting)'')") auto
    then show ?thesis
      by (simp add: identify_patterns_def classify_replace_def f emit_def)
  qed
  then show ?thesis
    unfolding differences_kat_tat by (simp add: make_pattern_def)
qed

theorem kat_tat_fronting_witness:
  "(row_named (asc ''Fronting (Velar Fronting)'')) \<in> set [row_named (asc ''Gliding''), row_named (asc ''Fronting (Velar Fronting)'')]
   \<and> Condition (row_named (asc ''Fronting (Velar Fronting)'')) = asc ''Fronting (Velar Fronting)''
   \<and> identify_patterns
          (fst (compare_ipa_transcriptions [ch_slash, ch_t, ch_ash, ch_t, ch_slash]
                  [ch_slash, ch_k, ch_ash, ch_t, ch_slash]))
          [row_named (asc ''Gliding''), row_named (asc ''Fronting (Velar Fronting)'')]
        = [make_pattern (asc ''Fronting (Velar Fronting)'') [ch_k, ch_arrow, ch_t] (asc ''Moderate'')
             (row_named (asc ''Fronting (Velar Fronting)''))]"
proof -
  have h: "\<exists>row \<in> set [row_named (asc ''Gliding''), row_named (asc ''Fronting (Velar Fronting)'')].
      Condition row = asc ''Fronting (Velar Fronting)''"
    by (simp add: row_named_def)
  have s: "hd (select_rule [row_named (asc ''Gliding''), row_named (asc ''Fronting (Velar Fronting)'')]
      (asc ''Fronting (Velar Fronting)'')) = row_named (asc ''Fronting (Velar Fronting)'')"
    by (simp add: select_rule_def row_named_def asc_def)
  from kat_tat_fronting [of "[row_named (asc ''Gliding''), row_named (asc ''Fronting (Velar Fronting)'')]"] h
  have "identify_patterns
          (fst (compare_ipa_transcriptions [ch_slash, ch_t, ch_ash, ch_t, ch_slash]
                  [ch_slash, ch_k, ch_ash, ch_t, ch_slash]))
          [row_named (asc ''Gliding''), row_named (asc ''Fronting (Velar Fronting)'')]
        = [make_pattern (asc ''Fronting (Velar Fronting)'') [ch_k, ch_arrow, ch_t] (asc ''Moderate'')
             (hd (select_rule [row_named (asc ''Gliding''), row_named (asc ''Fronting (Velar Fronting)'')]
      (asc ''Fronting (Velar Fronting)'')))]"
    by blast
  then show ?thesis
    unfolding s by (simp add: row_named_def)
qed

end
